theory Spec2Isabelle
  imports Main
begin

section \<open>Graphs as the networkx library builds them\<close>

text \<open>
  The script \<^verbatim>\<open>app.py\<close> obtains its topology from three constructors of the networkx
  library (\<^verbatim>\<open>grid_2d_graph\<close>, the same with \<^verbatim>\<open>periodic=True\<close>, and
  \<^verbatim>\<open>hypercube_graph\<close>) and reads it through \<^verbatim>\<open>G.nodes()\<close> and
  \<^verbatim>\<open>G.neighbors(v)\<close>. A networkx \<^verbatim>\<open>Graph\<close> is a dictionary from each node to the
  dictionary of its neighbours; both keep insertion order, and that order is what the
  router's tie-break observes. The model is therefore an association list from each node
  to the list of its neighbours, both in insertion order. networkx is a library, not part
  of the repository; its constructors are modelled here operation by operation, in the
  order in which networkx (version 3) adds nodes and edges.

  A coordinate tuple \<^verbatim>\<open>(i, j)\<close> is the list \<open>[i, j]\<close>; coordinates come from
  \<^verbatim>\<open>range(n)\<close>, so they are natural numbers.
\<close>

type_synonym 'a graph = "('a \<times> 'a list) list"

datatype error = ValueError | NetworkXError

text \<open>\<^verbatim>\<open>G.nodes()\<close>: the nodes in insertion order.\<close>

definition graph_nodes :: "'a graph \<Rightarrow> 'a list" where
  "graph_nodes G = map fst G"

text \<open>\<^verbatim>\<open>G.neighbors(n)\<close>: raises \<^verbatim>\<open>NetworkXError\<close> when \<open>n\<close> is not a node.\<close>

definition neighbors :: "'a graph \<Rightarrow> 'a \<Rightarrow> error + 'a list" where
  "neighbors G n = (case map_of G n of None \<Rightarrow> Inl NetworkXError | Some ns \<Rightarrow> Inr ns)"

text \<open>The adjacency list of a node, empty for a node the graph does not have.\<close>

definition nbrs :: "'a graph \<Rightarrow> 'a \<Rightarrow> 'a list" where
  "nbrs G n = (case map_of G n of None \<Rightarrow> [] | Some ns \<Rightarrow> ns)"

definition degree :: "'a graph \<Rightarrow> 'a \<Rightarrow> nat" where
  "degree G n = length (nbrs G n)"

text \<open>\<^verbatim>\<open>G.add_node(v)\<close>: a new key with an empty adjacency, nothing for a known node.\<close>

definition add_node :: "'a graph \<Rightarrow> 'a \<Rightarrow> 'a graph" where
  "add_node G v = (if v \<in> set (map fst G) then G else G @ [(v, [])])"

text \<open>\<^verbatim>\<open>G._adj[u][v] = d\<close>: \<open>v\<close> is appended to the adjacency of \<open>u\<close> unless present.\<close>

definition add_nbr :: "'a \<Rightarrow> 'a \<Rightarrow> 'a graph \<Rightarrow> 'a graph" where
  "add_nbr u v G = map (\<lambda>(k, ns). if k = u \<and> v \<notin> set ns then (k, ns @ [v]) else (k, ns)) G"

text \<open>\<^verbatim>\<open>G.add_edge(u, v)\<close>: adds missing endpoints, then each to the other's adjacency.\<close>

definition add_edge :: "'a graph \<Rightarrow> 'a \<times> 'a \<Rightarrow> 'a graph" where
  "add_edge G e = (case e of (u, v) \<Rightarrow> add_nbr v u (add_nbr u v (add_node (add_node G u) v)))"

definition add_nodes_from :: "'a graph \<Rightarrow> 'a list \<Rightarrow> 'a graph" where
  "add_nodes_from G vs = foldl add_node G vs"

definition add_edges_from :: "'a graph \<Rightarrow> ('a \<times> 'a) list \<Rightarrow> 'a graph" where
  "add_edges_from G es = foldl add_edge G es"

text \<open>
  \<^verbatim>\<open>G.edges()\<close> of an undirected graph: for each node in order, the pairs with those
  neighbours that were not themselves enumerated before.
\<close>

fun edges_from :: "'a list \<Rightarrow> 'a graph \<Rightarrow> ('a \<times> 'a) list" where
  "edges_from seen [] = []"
| "edges_from seen ((n, ns) # G) =
     map (Pair n) (filter (\<lambda>nbr. nbr \<notin> set seen) ns) @ edges_from (n # seen) G"

definition edges :: "'a graph \<Rightarrow> ('a \<times> 'a) list" where
  "edges G = edges_from [] G"

text \<open>\<^verbatim>\<open>pairwise(xs)\<close> and \<^verbatim>\<open>pairwise(xs, cyclic=True)\<close> of networkx.utils.\<close>

definition pairwise_py :: "'a list \<Rightarrow> ('a \<times> 'a) list" where
  "pairwise_py xs = zip xs (tl xs)"

definition pairwise_cyclic :: "'a list \<Rightarrow> ('a \<times> 'a) list" where
  "pairwise_cyclic xs = (case xs of [] \<Rightarrow> [] | x # rest \<Rightarrow> zip xs (rest @ [x]))"

text \<open>
  \<^verbatim>\<open>grid_2d_graph(m, n, periodic)\<close>: the nodes row by row, the edges between consecutive
  rows, the edges between consecutive columns, and, when periodic, the wrap-around edges
  of a dimension with more than two coordinates (networkx adds none for a dimension of
  length two or less, where they would duplicate an edge or be a self-loop).
\<close>

definition grid_2d_graph :: "nat \<Rightarrow> nat \<Rightarrow> bool \<Rightarrow> nat list graph" where
  "grid_2d_graph m n periodic =
     (let rows = [0..<m]; cols = [0..<n];
          G0 = add_nodes_from [] [[i, j]. i \<leftarrow> rows, j \<leftarrow> cols];
          G1 = add_edges_from G0 [([i, j], [pi, j]). (pi, i) \<leftarrow> pairwise_py rows, j \<leftarrow> cols];
          G2 = add_edges_from G1 [([i, j], [i, pj]). i \<leftarrow> rows, (pj, j) \<leftarrow> pairwise_py cols];
          G3 = (if periodic \<and> length rows > 2
                then add_edges_from G2 [([hd rows, j], [last rows, j]). j \<leftarrow> cols] else G2);
          G4 = (if periodic \<and> length cols > 2
                then add_edges_from G3 [([i, hd cols], [i, last cols]). i \<leftarrow> rows] else G3)
      in G4)"

text \<open>
  \<^verbatim>\<open>hypercube_graph(n)\<close> is \<^verbatim>\<open>grid_graph(n * [2], periodic=True)\<close>: starting from
  \<^verbatim>\<open>cycle_graph(2)\<close>, each further dimension takes the cartesian product of a new
  \<^verbatim>\<open>cycle_graph(2)\<close> with the graph so far, whose nodes are nested pairs
  \<^verbatim>\<open>(u, (v, (..., w)))\<close>; at the end \<^verbatim>\<open>relabel_nodes(G, flatten)\<close> rebuilds the
  graph over the flat tuples.
\<close>

datatype nested = Atom nat | Tup nat nested

fun flatten :: "nested \<Rightarrow> nat list" where
  "flatten (Atom k) = [k]"
| "flatten (Tup u x) = u # flatten x"

definition cycle_graph :: "nat \<Rightarrow> nat graph" where
  "cycle_graph n = add_edges_from (add_nodes_from [] [0..<n]) (pairwise_cyclic [0..<n])"

definition cartesian_product :: "nat graph \<Rightarrow> nested graph \<Rightarrow> nested graph" where
  "cartesian_product G H =
     (let GH0 = add_nodes_from [] [Tup u v. u \<leftarrow> graph_nodes G, v \<leftarrow> graph_nodes H];
          GH1 = add_edges_from GH0 [(Tup u x, Tup v x). (u, v) \<leftarrow> edges G, x \<leftarrow> graph_nodes H];
          GH2 = add_edges_from GH1 [(Tup x u, Tup x v). x \<leftarrow> graph_nodes G, (u, v) \<leftarrow> edges H]
      in GH2)"

text \<open>\<^verbatim>\<open>relabel_nodes(G, f)\<close> with \<^verbatim>\<open>copy=True\<close>: a new graph from the renamed nodes and edges.\<close>

definition relabel_nodes :: "'a graph \<Rightarrow> ('a \<Rightarrow> 'b) \<Rightarrow> 'b graph" where
  "relabel_nodes G f =
     add_edges_from (add_nodes_from [] (map f (graph_nodes G)))
       (map (\<lambda>(n1, n2). (f n1, f n2)) (edges G))"

text \<open>The first factor, an integer-labelled graph, seen as a graph over nested tuples.\<close>

definition atoms :: "nat graph \<Rightarrow> nested graph" where
  "atoms G = map (\<lambda>(k, ns). (Atom k, map Atom ns)) G"

fun grid_graph_loop :: "nat list \<Rightarrow> nested graph \<Rightarrow> nested graph" where
  "grid_graph_loop [] G = G"
| "grid_graph_loop (current_dim # dims) G =
     grid_graph_loop dims (cartesian_product (cycle_graph current_dim) G)"

definition grid_graph_periodic :: "nat list \<Rightarrow> nat list graph" where
  "grid_graph_periodic dim =
     (case dim of [] \<Rightarrow> []
      | d # ds \<Rightarrow> relabel_nodes (grid_graph_loop ds (atoms (cycle_graph d))) flatten)"

definition hypercube_graph :: "nat \<Rightarrow> nat list graph" where
  "hypercube_graph n = grid_graph_periodic (replicate n 2)"

section \<open>The script\<close>

text \<open>
  The sidebar's select box offers exactly three topologies; \<^verbatim>\<open>generate_topology\<close>
  tests for the first two and takes every other value as the hypercube.
\<close>

datatype topology = Mesh | Torus | Hypercube

definition generate_topology :: "topology \<Rightarrow> nat \<Rightarrow> nat list graph" where
  "generate_topology topology n =
     (if topology = Mesh then grid_2d_graph n n False
      else if topology = Torus then grid_2d_graph n n True
      else hypercube_graph n)"

record 'a packet =
  src :: 'a
  dst :: 'a
  current :: 'a
  path :: "'a list"
  completed :: bool
  blocked_steps :: nat

text \<open>\<^verbatim>\<open>Packet.__init__\<close>\<close>

definition Packet :: "'a \<Rightarrow> 'a \<Rightarrow> 'a packet" where
  "Packet s d = \<lparr>src = s, dst = d, current = s, path = [s], completed = False, blocked_steps = 0\<rparr>"

text \<open>
  \<^verbatim>\<open>random.sample(population, 2)\<close> raises \<^verbatim>\<open>ValueError\<close> on a population of fewer than
  two elements and otherwise returns the elements at two different positions. The random
  source is the parameter \<open>r\<close>: its first number picks a position, its second a position
  among the remaining ones, so every pair of different positions is the result for some \<open>r\<close>.
\<close>

definition random_sample2 :: "'a list \<Rightarrow> nat \<times> nat \<Rightarrow> error + ('a \<times> 'a)" where
  "random_sample2 population r =
     (if length population < 2 then Inl ValueError
      else let i = fst r mod length population;
               rest = take i population @ drop (Suc i) population;
               j = snd r mod length rest
           in Inr (population ! i, rest ! j))"

text \<open>The loop that fills \<^verbatim>\<open>packet_list\<close>, one random draw per packet.\<close>

fun create_packets :: "'a graph \<Rightarrow> (nat \<times> nat) list \<Rightarrow> 'a packet list \<Rightarrow> error + 'a packet list" where
  "create_packets G [] packet_list = Inr packet_list"
| "create_packets G (r # rs) packet_list =
     (case random_sample2 (graph_nodes G) r of
        Inl e \<Rightarrow> Inl e
      | Inr (s, d) \<Rightarrow> create_packets G rs (packet_list @ [Packet s d]))"

text \<open>The key of \<^verbatim>\<open>min\<close> in the router: the packets at node \<open>n\<close> that are not completed.\<close>

definition congestion :: "'a packet list \<Rightarrow> 'a \<Rightarrow> nat" where
  "congestion packet_list n = length (filter (\<lambda>p. current p = n \<and> \<not> completed p) packet_list)"

text \<open>
  Python's \<^verbatim>\<open>min(xs, key=f)\<close>: \<^verbatim>\<open>ValueError\<close> on an empty list, otherwise the first
  element with the least key.
\<close>

fun min_key :: "('a \<Rightarrow> nat) \<Rightarrow> 'a list \<Rightarrow> error + 'a" where
  "min_key f [] = Inl ValueError"
| "min_key f (x # xs) = Inr (foldl (\<lambda>best y. if f y < f best then y else best) x xs)"

text \<open>
  \<^verbatim>\<open>adaptive_next_hop(packet)\<close>. The packet is an element of the global
  \<^verbatim>\<open>packet_list\<close>, which the function both reads and (through the packet) updates, so
  the model takes the list and the packet's index and returns the hop with the new list.
\<close>

definition adaptive_next_hop :: "'a graph \<Rightarrow> 'a packet list \<Rightarrow> nat \<Rightarrow> error + ('a \<times> 'a packet list)" where
  "adaptive_next_hop G packet_list i =
     (let packet = packet_list ! i in
      case neighbors G (current packet) of
        Inl e \<Rightarrow> Inl e
      | Inr all_neighbors \<Rightarrow>
          let neighbors = filter (\<lambda>n. n \<notin> set (path packet)) all_neighbors in
          if neighbors = []
          then Inr (current packet,
                    packet_list[i := packet\<lparr>blocked_steps := blocked_steps packet + 1\<rparr>])
          else (case min_key (congestion packet_list) neighbors of
                  Inl e \<Rightarrow> Inl e
                | Inr next_hop \<Rightarrow> Inr (next_hop, packet_list)))"

text \<open>The body of \<^verbatim>\<open>for p in packet_list\<close> for the packet at index \<open>i\<close>.\<close>

definition move_packet :: "'a graph \<Rightarrow> 'a packet list \<Rightarrow> nat \<Rightarrow> error + 'a packet list" where
  "move_packet G packet_list i =
     (let p = packet_list ! i in
      if completed p then Inr packet_list
      else if current p = dst p then Inr (packet_list[i := p\<lparr>completed := True\<rparr>])
      else (case adaptive_next_hop G packet_list i of
              Inl e \<Rightarrow> Inl e
            | Inr (next_hop, packet_list') \<Rightarrow>
                let p' = packet_list' ! i in
                Inr (packet_list'[i := p'\<lparr>current := next_hop, path := path p' @ [next_hop]\<rparr>])))"

fun move_from :: "'a graph \<Rightarrow> nat list \<Rightarrow> 'a packet list \<Rightarrow> error + 'a packet list" where
  "move_from G [] packet_list = Inr packet_list"
| "move_from G (i # is) packet_list =
     (case move_packet G packet_list i of
        Inl e \<Rightarrow> Inl e
      | Inr packet_list' \<Rightarrow> move_from G is packet_list')"

definition move_packets :: "'a graph \<Rightarrow> 'a packet list \<Rightarrow> error + 'a packet list" where
  "move_packets G packet_list = move_from G [0..<length packet_list] packet_list"

text \<open>The colour of each node in the frame drawn at the start of an iteration.\<close>

datatype colour = Lightblue | Orange | Red

definition node_color :: "'a packet list \<Rightarrow> 'a \<Rightarrow> colour" where
  "node_color packet_list node =
     (let packet_here = filter (\<lambda>p. current p = node \<and> \<not> completed p) packet_list in
      if packet_here = [] then Lightblue
      else if list_ex (\<lambda>p. blocked_steps p \<ge> 3) packet_here then Orange
      else Red)"

definition node_colors :: "'a graph \<Rightarrow> 'a packet list \<Rightarrow> colour list" where
  "node_colors G packet_list = map (node_color packet_list) (graph_nodes G)"

text \<open>
  \<^verbatim>\<open>for step in range(max_steps)\<close>: the first argument counts the iterations still to
  run. Every iteration draws one frame and then moves the packets.
\<close>

fun simulation_loop ::
  "'a graph \<Rightarrow> nat \<Rightarrow> 'a packet list \<Rightarrow> colour list list \<Rightarrow> error + ('a packet list \<times> colour list list)" where
  "simulation_loop G 0 packet_list frames = Inr (packet_list, frames)"
| "simulation_loop G (Suc k) packet_list frames =
     (case move_packets G packet_list of
        Inl e \<Rightarrow> Inl e
      | Inr packet_list' \<Rightarrow> simulation_loop G k packet_list' (frames @ [node_colors G packet_list]))"

text \<open>The packets after \<open>k\<close> iterations of the loop.\<close>

fun run_steps :: "'a graph \<Rightarrow> nat \<Rightarrow> 'a packet list \<Rightarrow> error + 'a packet list" where
  "run_steps G 0 packet_list = Inr packet_list"
| "run_steps G (Suc k) packet_list =
     (case move_packets G packet_list of
        Inl e \<Rightarrow> Inl e
      | Inr packet_list' \<Rightarrow> run_steps G k packet_list')"

text \<open>The summary: the number, path and status of each packet.\<close>

definition status :: "'a packet \<Rightarrow> string" where
  "status p = (if completed p then ''Completed'' else ''Blocked'')"

definition summary :: "'a packet list \<Rightarrow> (nat \<times> 'a list \<times> string) list" where
  "summary packet_list = map (\<lambda>(idx, p). (idx + 1, path p, status p)) (enumerate 0 packet_list)"

definition max_steps :: "nat \<Rightarrow> nat" where
  "max_steps nodes = nodes * nodes * 2"

record run_result =
  final_packets :: "nat list packet list"
  frames_drawn :: "colour list list"
  report :: "(nat \<times> nat list list \<times> string) list"

text \<open>
  The whole script for the sidebar's topology, number of nodes per dimension and number
  of packets (the length of \<open>draws\<close>, one random draw per packet). The switching technique
  and the speed only reach the summary text and \<^verbatim>\<open>time.sleep\<close>. The sidebar's
  sliders offer 2 to 5 nodes per dimension and 1 to 8 packets; the functions themselves
  take any number.
\<close>

definition app :: "topology \<Rightarrow> nat \<Rightarrow> (nat \<times> nat) list \<Rightarrow> error + run_result" where
  "app topology nodes draws =
     (let G = generate_topology topology nodes in
      case create_packets G draws [] of
        Inl e \<Rightarrow> Inl e
      | Inr packet_list \<Rightarrow>
          (case simulation_loop G (max_steps nodes) packet_list [] of
             Inl e \<Rightarrow> Inl e
           | Inr (packet_list', frames) \<Rightarrow>
               Inr \<lparr>final_packets = packet_list', frames_drawn = frames,
                    report = summary packet_list'\<rparr>))"

section \<open>Vocabulary of the properties\<close>

text \<open>
  What one iteration of the loop does to a single packet, whatever the other packets do:
  it is skipped when completed, marked completed when it stands on its destination,
  re-appended to its own node when every neighbour is already on its path, and moved to
  some neighbour that is not on its path otherwise.
\<close>

inductive pstep :: "'a graph \<Rightarrow> 'a packet \<Rightarrow> 'a packet \<Rightarrow> bool" for G where
  skip: "completed p \<Longrightarrow> pstep G p p"
| arrive: "\<not> completed p \<Longrightarrow> current p = dst p \<Longrightarrow> pstep G p (p\<lparr>completed := True\<rparr>)"
| blocked: "\<not> completed p \<Longrightarrow> current p \<noteq> dst p \<Longrightarrow> neighbors G (current p) = Inr ns \<Longrightarrow>
     filter (\<lambda>n. n \<notin> set (path p)) ns = [] \<Longrightarrow>
     pstep G p (p\<lparr>blocked_steps := Suc (blocked_steps p), path := path p @ [current p]\<rparr>)"
| hop: "\<not> completed p \<Longrightarrow> current p \<noteq> dst p \<Longrightarrow> neighbors G (current p) = Inr ns \<Longrightarrow>
     h \<in> set (filter (\<lambda>n. n \<notin> set (path p)) ns) \<Longrightarrow>
     pstep G p (p\<lparr>current := h, path := path p @ [h]\<rparr>)"

text \<open>
  The number of other packets (any index but \<open>i\<close>) that are not completed and stand on
  node \<open>n\<close>.
\<close>

definition others_at :: "'a packet list \<Rightarrow> nat \<Rightarrow> 'a \<Rightarrow> nat" where
  "others_at packet_list i n =
     length (filter (\<lambda>j. j \<noteq> i \<and> current (packet_list ! j) = n \<and> \<not> completed (packet_list ! j))
       [0..<length packet_list])"

text \<open>
  The shape of a path: distinct nodes, then repetitions of the last of them, which only
  occur once no neighbour of that node is left off the path.
\<close>

definition path_inv :: "'a graph \<Rightarrow> 'a packet \<Rightarrow> bool" where
  "path_inv G p =
     (current p = last (path p) \<and>
      (\<exists>ys m. path p = ys @ replicate m (last ys) \<and> ys \<noteq> [] \<and> distinct ys \<and>
         (m = 0 \<or> (\<exists>ns. neighbors G (current p) = Inr ns \<and>
                          filter (\<lambda>n. n \<notin> set (path p)) ns = []))))"

text \<open>
  The node list and the edge list from which \<open>grid_2d_graph n n\<close> is built.
\<close>

definition grid_nodes :: "nat \<Rightarrow> nat list list" where
  "grid_nodes n = [[i, j]. i \<leftarrow> [0..<n], j \<leftarrow> [0..<n]]"

definition grid_edges :: "nat \<Rightarrow> bool \<Rightarrow> (nat list \<times> nat list) list" where
  "grid_edges n periodic =
     [([i, j], [pi, j]). (pi, i) \<leftarrow> pairwise_py [0..<n], j \<leftarrow> [0..<n]] @
     [([i, j], [i, pj]). i \<leftarrow> [0..<n], (pj, j) \<leftarrow> pairwise_py [0..<n]] @
     (if periodic \<and> n > 2
      then [([0, j], [n - 1, j]). j \<leftarrow> [0..<n]] @ [([i, 0], [i, n - 1]). i \<leftarrow> [0..<n]]
      else [])"

text \<open>
  Adjacency as a relation.
\<close>

definition adjacent :: "'a graph \<Rightarrow> ('a \<times> 'a) set" where
  "adjacent G = {(u, v). v \<in> set (nbrs G u)}"

text \<open>
  A graph is connected when every node reaches every node along edges.
\<close>

definition connected :: "'a graph \<Rightarrow> bool" where
  "connected G = (\<forall>u \<in> set (graph_nodes G). \<forall>v \<in> set (graph_nodes G). (u, v) \<in> (adjacent G)\<^sup>*)"

text \<open>
  The graphs networkx builds: no node listed twice, no neighbour listed twice, every
  neighbour a node, and adjacency symmetric.
\<close>

definition wf_graph :: "'a graph \<Rightarrow> bool" where
  "wf_graph G \<longleftrightarrow>
     distinct (graph_nodes G) \<and> (\<forall>x. distinct (nbrs G x)) \<and>
     (\<forall>x. set (nbrs G x) \<subseteq> set (graph_nodes G)) \<and> sym (adjacent G)"

text \<open>
  What each stage of the construction of the \<open>d\<close>-dimensional hypercube satisfies.
\<close>

definition cube_inv :: "nat \<Rightarrow> 'a graph \<Rightarrow> bool" where
  "cube_inv d G \<longleftrightarrow>
     wf_graph G \<and> length (graph_nodes G) = 2 ^ d \<and>
     (\<forall>x \<in> set (graph_nodes G). degree G x = d) \<and> connected G"

text \<open>
  Every packet stands on a node of the graph.
\<close>

definition in_graph :: "'a graph \<Rightarrow> 'a packet list \<Rightarrow> bool" where
  "in_graph G ps \<longleftrightarrow> (\<forall>i < length ps. current (ps ! i) \<in> set (graph_nodes G))"

text \<open>
  Where a packet can be after \<open>k\<close> iterations: completed; or still moving, with \<open>k\<close>
  hops through distinct nodes of the graph behind it; or blocked away from its
  destination.
\<close>

definition on_time :: "'a graph \<Rightarrow> nat \<Rightarrow> 'a packet \<Rightarrow> bool" where
  "on_time G k p \<longleftrightarrow>
     completed p \<or>
     (distinct (path p) \<and> length (path p) = Suc k \<and> set (path p) \<subseteq> set (graph_nodes G) \<and>
      current p = last (path p)) \<or>
     (current p \<noteq> dst p \<and>
      (\<exists>ns. neighbors G (current p) = Inr ns \<and> filter (\<lambda>n. n \<notin> set (path p)) ns = []))"

section \<open>One packet in one iteration\<close>

lemma min_key_fold_in: "foldl (\<lambda>best y. if f y < f best then y else best) x xs \<in> set (x # xs)"
  by (induction xs arbitrary: x) auto

lemma min_key_in: "min_key f xs = Inr h \<Longrightarrow> h \<in> set xs"
  using min_key_fold_in [of f] by (cases xs) auto

lemma min_key_nonempty: "xs \<noteq> [] \<Longrightarrow> \<exists>h. min_key f xs = Inr h"
  by (cases xs) auto

lemma move_packet_pstep:
  assumes "i < length ps" "move_packet G ps i = Inr ps'"
  shows "length ps' = length ps \<and> pstep G (ps ! i) (ps' ! i) \<and> (\<forall>j. j \<noteq> i \<longrightarrow> ps' ! j = ps ! j)"
proof (cases "completed (ps ! i)")
  case True
  with assms show ?thesis by (auto simp: move_packet_def intro: pstep.skip)
next
  case nc: False
  show ?thesis
  proof (cases "current (ps ! i) = dst (ps ! i)")
    case True
    with nc assms show ?thesis by (auto simp: move_packet_def intro: pstep.arrive)
  next
    case nd: False
    from nc nd assms obtain ns where ns: "neighbors G (current (ps ! i)) = Inr ns"
      by (auto simp: move_packet_def adaptive_next_hop_def Let_def split: sum.splits)
    show ?thesis
    proof (cases "filter (\<lambda>n. n \<notin> set (path (ps ! i))) ns = []")
      case True
      with nc nd ns assms have "ps' = ps[i := (ps ! i)\<lparr>blocked_steps := Suc (blocked_steps (ps ! i)), path := path (ps ! i) @ [current (ps ! i)]\<rparr>]"
        by (auto simp: move_packet_def adaptive_next_hop_def Let_def)
      with assms(1) pstep.blocked [OF nc nd ns True] show ?thesis by simp
    next
      case False
      with nc nd ns assms obtain h where h: "min_key (congestion ps) (filter (\<lambda>n. n \<notin> set (path (ps ! i))) ns) = Inr h"
        and ps': "ps' = ps[i := (ps ! i)\<lparr>current := h, path := path (ps ! i) @ [h]\<rparr>]"
        by (auto simp: move_packet_def adaptive_next_hop_def Let_def split: sum.splits)
      from min_key_in [OF h] have "h \<in> set (filter (\<lambda>n. n \<notin> set (path (ps ! i))) ns)" .
      from pstep.hop [OF nc nd ns this] ps' assms(1) show ?thesis by simp
    qed
  qed
qed

lemma move_from_pstep:
  "distinct is \<Longrightarrow> \<forall>i \<in> set is. i < length ps \<Longrightarrow> move_from G is ps = Inr ps' \<Longrightarrow>
   length ps' = length ps \<and> (\<forall>i \<in> set is. pstep G (ps ! i) (ps' ! i)) \<and> (\<forall>i. i \<notin> set is \<longrightarrow> ps' ! i = ps ! i)"
proof (induction "is" arbitrary: ps)
  case Nil
  then show ?case by simp
next
  case (Cons i "is")
  from Cons.prems obtain ps1 where m: "move_packet G ps i = Inr ps1" and r: "move_from G is ps1 = Inr ps'"
    by (auto split: sum.splits)
  from Cons.prems have i: "i < length ps" by simp
  note s = move_packet_pstep [OF i m]
  from Cons.prems s have "distinct is" "\<forall>i \<in> set is. i < length ps1" by auto
  from Cons.IH [OF this r] have ih: "length ps' = length ps1" "\<forall>j \<in> set is. pstep G (ps1 ! j) (ps' ! j)"
    "\<forall>j. j \<notin> set is \<longrightarrow> ps' ! j = ps1 ! j" by auto
  from Cons.prems have ni: "i \<notin> set is" by simp
  have a: "pstep G (ps ! j) (ps' ! j)" if "j \<in> set is" for j
  proof -
    from that ni have "j \<noteq> i" by auto
    with s have "ps1 ! j = ps ! j" by simp
    with ih(2) that show ?thesis by auto
  qed
  have b: "pstep G (ps ! i) (ps' ! i)" using s ih(3) ni by simp
  have c: "ps' ! j = ps ! j" if "j \<notin> set (i # is)" for j using that s ih(3) by simp
  show ?case using a b c ih(1) s by auto
qed

lemma move_packets_pstep:
  assumes "move_packets G ps = Inr ps'"
  shows "length ps' = length ps \<and> (\<forall>i < length ps. pstep G (ps ! i) (ps' ! i))"
  using move_from_pstep [of "[0..<length ps]" ps G ps'] assms by (simp add: move_packets_def)

lemma run_steps_psteps:
  "run_steps G k ps = Inr ps' \<Longrightarrow>
   length ps' = length ps \<and> (\<forall>i < length ps. (pstep G ^^ k) (ps ! i) (ps' ! i))"
proof (induction k arbitrary: ps)
  case 0
  then show ?case by simp
next
  case (Suc k)
  from Suc.prems obtain ps1 where m: "move_packets G ps = Inr ps1" and r: "run_steps G k ps1 = Inr ps'"
    by (auto split: sum.splits)
  from move_packets_pstep [OF m] Suc.IH [OF r] show ?case
    by (auto simp del: relpowp.simps intro: relpowp_Suc_I2)
qed

lemma run_steps_add:
  "run_steps G (k + m) ps = Inr ps2 \<Longrightarrow> \<exists>ps1. run_steps G k ps = Inr ps1 \<and> run_steps G m ps1 = Inr ps2"
  by (induction k arbitrary: ps) (auto split: sum.splits)

section \<open>The router\<close>

lemma congestion_index:
  "congestion ps n = length (filter (\<lambda>j. current (ps ! j) = n \<and> \<not> completed (ps ! j)) [0..<length ps])"
proof -
  have "filter (\<lambda>p. current p = n \<and> \<not> completed p) (map (\<lambda>j. ps ! j) [0..<length ps])
      = map (\<lambda>j. ps ! j) (filter (\<lambda>j. current (ps ! j) = n \<and> \<not> completed (ps ! j)) [0..<length ps])"
    by (simp add: filter_map comp_def)
  then show ?thesis by (simp add: congestion_def map_nth)
qed

lemma others_at_congestion:
  assumes "i < length ps \<Longrightarrow> current (ps ! i) \<noteq> n"
  shows "others_at ps i n = congestion ps n"
proof -
  have "filter (\<lambda>j. j \<noteq> i \<and> current (ps ! j) = n \<and> \<not> completed (ps ! j)) [0..<length ps]
      = filter (\<lambda>j. current (ps ! j) = n \<and> \<not> completed (ps ! j)) [0..<length ps]"
    using assms by (intro filter_cong) auto
  then show ?thesis by (simp add: others_at_def congestion_index)
qed

lemma foldl_min_first:
  "\<exists>j < length (x # xs).
      foldl (\<lambda>best y. if (f y :: nat) < f best then y else best) x xs = (x # xs) ! j \<and>
      (\<forall>k < length (x # xs). f ((x # xs) ! j) \<le> f ((x # xs) ! k)) \<and>
      (\<forall>k < j. f ((x # xs) ! j) < f ((x # xs) ! k))"
proof (induction xs rule: rev_induct)
  case Nil
  show ?case by simp
next
  case (snoc y xs)
  let ?g = "\<lambda>best y. if f y < f best then y else best"
  from snoc obtain j where j: "j < length (x # xs)" "foldl ?g x xs = (x # xs) ! j"
    "\<forall>k < length (x # xs). f ((x # xs) ! j) \<le> f ((x # xs) ! k)"
    "\<forall>k < j. f ((x # xs) ! j) < f ((x # xs) ! k)" by blast
  have nth_old: "(x # xs @ [y]) ! k = (x # xs) ! k" if "k < length (x # xs)" for k
    using that by (metis append_Cons nth_append)
  have nth_new: "(x # xs @ [y]) ! length (x # xs) = y"
    by (metis append_Cons nth_append_length)
  show ?case
  proof (cases "f y < f ((x # xs) ! j)")
    case True
    have "foldl ?g x (xs @ [y]) = (x # xs @ [y]) ! length (x # xs)"
      using True j(2) nth_new by simp
    moreover have "\<forall>k < length (x # xs @ [y]). f y \<le> f ((x # xs @ [y]) ! k)"
    proof (intro allI impI)
      fix k assume "k < length (x # xs @ [y])"
      then consider "k < length (x # xs)" | "k = length (x # xs)" by fastforce
      then show "f y \<le> f ((x # xs @ [y]) ! k)"
      proof cases
        case 1
        with j(3) True nth_old [OF 1] show ?thesis by (metis le_less_trans less_imp_le not_le)
      next
        case 2
        with nth_new show ?thesis by simp
      qed
    qed
    moreover have "\<forall>k < length (x # xs). f y < f ((x # xs @ [y]) ! k)"
    proof (intro allI impI)
      fix k assume k: "k < length (x # xs)"
      with j(3) True nth_old [OF k] show "f y < f ((x # xs @ [y]) ! k)"
        by (metis less_le_trans)
    qed
    ultimately show ?thesis
      using nth_new by (intro exI [of _ "length (x # xs)"]) simp
  next
    case False
    have r: "foldl ?g x (xs @ [y]) = (x # xs @ [y]) ! j"
      using False j(1,2) nth_old [OF j(1)] by simp
    have a: "\<forall>k < length (x # xs @ [y]). f ((x # xs @ [y]) ! j) \<le> f ((x # xs @ [y]) ! k)"
    proof (intro allI impI)
      fix k assume "k < length (x # xs @ [y])"
      then consider "k < length (x # xs)" | "k = length (x # xs)" by fastforce
      then show "f ((x # xs @ [y]) ! j) \<le> f ((x # xs @ [y]) ! k)"
      proof cases
        case 1
        with j(3) nth_old [OF 1] nth_old [OF j(1)] show ?thesis by simp
      next
        case 2
        with nth_new False nth_old [OF j(1)] show ?thesis by simp
      qed
    qed
    have b: "\<forall>k < j. f ((x # xs @ [y]) ! j) < f ((x # xs @ [y]) ! k)"
    proof (intro allI impI)
      fix k assume k: "k < j"
      with j(1) have "k < length (x # xs)" by simp
      from nth_old [OF this] nth_old [OF j(1)] j(4) k
      show "f ((x # xs @ [y]) ! j) < f ((x # xs @ [y]) ! k)" by simp
    qed
    from j(1) have "j < length (x # xs @ [y])" by simp
    with r a b show ?thesis by blast
  qed
qed

lemma min_key_first:
  assumes "xs \<noteq> []"
  shows "\<exists>j < length xs. min_key f xs = Inr (xs ! j) \<and>
           (\<forall>k < length xs. f (xs ! j) \<le> f (xs ! k)) \<and> (\<forall>k < j. f (xs ! j) < f (xs ! k))"
proof -
  from assms obtain y ys where xs: "xs = y # ys" by (cases xs) auto
  show ?thesis unfolding xs min_key.simps using foldl_min_first [of y ys f] by blast
qed

text \<open>
  Claim C2. When the neighbours of a packet's current node that are not on its path are
  not all used up, the router returns one of them, leaves every packet unchanged, and the
  one it returns has the least number of other, not completed packets standing on it;
  every candidate before it in the enumeration order has strictly more, so it is the
  first minimiser. The packet's current node is on its own path, as in every state of a
  run.
\<close>

theorem router_picks_least_congested:
  assumes "i < length packet_list"
    and "neighbors G (current (packet_list ! i)) = Inr ns"
    and "cand = filter (\<lambda>n. n \<notin> set (path (packet_list ! i))) ns"
    and "cand \<noteq> []"
    and "current (packet_list ! i) \<in> set (path (packet_list ! i))"
  shows "\<exists>j < length cand.
           adaptive_next_hop G packet_list i = Inr (cand ! j, packet_list) \<and>
           (\<forall>k < length cand. others_at packet_list i (cand ! j) \<le> others_at packet_list i (cand ! k)) \<and>
           (\<forall>k < j. others_at packet_list i (cand ! j) < others_at packet_list i (cand ! k))"
proof -
  have eq: "others_at packet_list i (cand ! k) = congestion packet_list (cand ! k)" if "k < length cand" for k
  proof (rule others_at_congestion)
    from that have "cand ! k \<in> set cand" by simp
    with assms(3) have "cand ! k \<notin> set (path (packet_list ! i))" by auto
    with assms(5) show "current (packet_list ! i) \<noteq> cand ! k" by auto
  qed
  from min_key_first [OF assms(4), of "congestion packet_list"]
  obtain j where j: "j < length cand" "min_key (congestion packet_list) cand = Inr (cand ! j)"
    "\<forall>k < length cand. congestion packet_list (cand ! j) \<le> congestion packet_list (cand ! k)"
    "\<forall>k < j. congestion packet_list (cand ! j) < congestion packet_list (cand ! k)" by blast
  have "adaptive_next_hop G packet_list i = Inr (cand ! j, packet_list)"
    using assms(2,3,4) j(2) by (simp add: adaptive_next_hop_def Let_def)
  moreover have "\<forall>k < length cand. others_at packet_list i (cand ! j) \<le> others_at packet_list i (cand ! k)"
    using j(1,3) eq by simp
  moreover have "\<forall>k < j. others_at packet_list i (cand ! j) < others_at packet_list i (cand ! k)"
    using j(1,4) eq by simp
  ultimately show ?thesis using j(1) by blast
qed

section \<open>Completed and blocked packets\<close>

text \<open>
  Claim C4. The router always returns a hop for a packet whose current node is a node of
  the graph; the hop is the current node exactly when no neighbour is left off the path,
  exactly then \<open>blocked_steps\<close> grows by one, and otherwise it is unchanged.
\<close>

theorem blocked_steps_iff_no_progress:
  assumes "i < length packet_list"
    and "neighbors G (current (packet_list ! i)) = Inr ns"
    and "current (packet_list ! i) \<in> set (path (packet_list ! i))"
  shows "\<exists>next_hop packet_list'.
           adaptive_next_hop G packet_list i = Inr (next_hop, packet_list') \<and>
           (next_hop = current (packet_list ! i)
              \<longleftrightarrow> filter (\<lambda>n. n \<notin> set (path (packet_list ! i))) ns = []) \<and>
           (next_hop = current (packet_list ! i)
              \<longleftrightarrow> blocked_steps (packet_list' ! i) = blocked_steps (packet_list ! i) + 1) \<and>
           (next_hop \<noteq> current (packet_list ! i)
              \<longleftrightarrow> blocked_steps (packet_list' ! i) = blocked_steps (packet_list ! i))"
proof (cases "filter (\<lambda>n. n \<notin> set (path (packet_list ! i))) ns = []")
  case True
  with assms(1,2) show ?thesis
    by (simp add: adaptive_next_hop_def Let_def)
next
  case False
  from min_key_nonempty [OF False, of "congestion packet_list"]
  obtain h where h: "min_key (congestion packet_list) (filter (\<lambda>n. n \<notin> set (path (packet_list ! i))) ns) = Inr h"
    by blast
  from min_key_in [OF h] have "h \<notin> set (path (packet_list ! i))" by simp
  with assms(3) have "h \<noteq> current (packet_list ! i)" by auto
  with False h assms(2) show ?thesis
    by (simp add: adaptive_next_hop_def Let_def)
qed

lemma pstep_completed: "pstep G p p' \<Longrightarrow> completed p \<Longrightarrow> p' = p"
  by (induction rule: pstep.induct) auto

lemma pstep_blocked_mono: "pstep G p p' \<Longrightarrow> blocked_steps p \<le> blocked_steps p'"
  by (induction rule: pstep.induct) auto

lemma psteps_completed: "(pstep G ^^ k) p p' \<Longrightarrow> completed p \<Longrightarrow> p' = p"
proof (induction k arbitrary: p')
  case 0
  then show ?case by simp
next
  case (Suc k)
  from Suc.prems(1) obtain q where q: "(pstep G ^^ k) p q" "pstep G q p'" by auto
  from Suc.IH [OF q(1) Suc.prems(2)] have "q = p" .
  with q(2) Suc.prems(2) pstep_completed show ?case by blast
qed

lemma psteps_blocked_mono: "(pstep G ^^ k) p p' \<Longrightarrow> blocked_steps p \<le> blocked_steps p'"
proof (induction k arbitrary: p')
  case 0
  then show ?case by simp
next
  case (Suc k)
  from Suc.prems(1) obtain q where q: "(pstep G ^^ k) p q" "pstep G q p'" by auto
  from Suc.IH [OF q(1)] pstep_blocked_mono [OF q(2)] show ?case by simp
qed

lemma completed_frozen_between:
  assumes "run_steps G k packet_list0 = Inr packet_list1"
    and "run_steps G (k + m) packet_list0 = Inr packet_list2"
    and "i < length packet_list0"
  shows "(completed (packet_list1 ! i) \<longrightarrow>
            current (packet_list2 ! i) = current (packet_list1 ! i) \<and>
            path (packet_list2 ! i) = path (packet_list1 ! i) \<and>
            completed (packet_list2 ! i)) \<and>
         blocked_steps (packet_list1 ! i) \<le> blocked_steps (packet_list2 ! i)"
proof -
  from run_steps_add [OF assms(2)] assms(1) have r: "run_steps G m packet_list1 = Inr packet_list2"
    by auto
  from run_steps_psteps [OF assms(1)] assms(3) have "i < length packet_list1" by simp
  with run_steps_psteps [OF r] have s: "(pstep G ^^ m) (packet_list1 ! i) (packet_list2 ! i)" by simp
  from psteps_completed [OF s] psteps_blocked_mono [OF s] show ?thesis by auto
qed

lemma pstep_stuck:
  assumes "pstep G p p'"
    and "neighbors G (current p) = Inr ns"
    and "filter (\<lambda>n. n \<notin> set (path p)) ns = []"
  shows "current p' = current p \<and> dst p' = dst p \<and>
         filter (\<lambda>n. n \<notin> set (path p')) ns = [] \<and>
         ((completed p \<or> current p = dst p) \<longrightarrow>
            (completed p' \<or> current p' = dst p') \<and> blocked_steps p' = blocked_steps p) \<and>
         (\<not> completed p \<and> current p \<noteq> dst p \<longrightarrow>
            \<not> completed p' \<and> current p' \<noteq> dst p' \<and> blocked_steps p' = blocked_steps p + 1)"
  using assms
proof (induction rule: pstep.induct)
  case (skip p)
  then show ?case by simp
next
  case (arrive p)
  then show ?case by simp
next
  case (blocked p ns')
  then show ?case by (auto simp: filter_empty_conv)
next
  case (hop p ns' h)
  then have "ns' = ns" by simp
  with hop show ?case by (auto simp: filter_empty_conv)
qed

lemma psteps_stuck:
  assumes "(pstep G ^^ m) p p'"
    and "neighbors G (current p) = Inr ns"
    and "filter (\<lambda>n. n \<notin> set (path p)) ns = []"
  shows "current p' = current p \<and> dst p' = dst p \<and>
         filter (\<lambda>n. n \<notin> set (path p')) ns = [] \<and>
         ((completed p \<or> current p = dst p) \<longrightarrow>
            (completed p' \<or> current p' = dst p') \<and> blocked_steps p' = blocked_steps p) \<and>
         (\<not> completed p \<and> current p \<noteq> dst p \<longrightarrow>
            \<not> completed p' \<and> current p' \<noteq> dst p' \<and> blocked_steps p' = blocked_steps p + m)"
  using assms(1)
proof (induction m arbitrary: p')
  case 0
  with assms(3) show ?case by simp
next
  case (Suc m)
  from Suc.prems obtain q where q: "(pstep G ^^ m) p q" "pstep G q p'" by auto
  note ih = Suc.IH [OF q(1)]
  from ih assms(2) have n: "neighbors G (current q) = Inr ns" by simp
  from ih have f: "filter (\<lambda>n. n \<notin> set (path q)) ns = []" by simp
  from pstep_stuck [OF q(2) n f] ih show ?case by auto
qed

lemma stuck_forever:
  assumes "run_steps G m packet_list = Inr packet_list'"
    and "i < length packet_list"
    and "neighbors G (current (packet_list ! i)) = Inr ns"
    and "filter (\<lambda>n. n \<notin> set (path (packet_list ! i))) ns = []"
  shows "current (packet_list' ! i) = current (packet_list ! i) \<and>
         filter (\<lambda>n. n \<notin> set (path (packet_list' ! i))) ns = [] \<and>
         blocked_steps (packet_list' ! i) = blocked_steps (packet_list ! i) +
           (if completed (packet_list ! i) \<or> current (packet_list ! i) = dst (packet_list ! i)
            then 0 else m)"
proof -
  from run_steps_psteps [OF assms(1)] assms(2)
  have s: "(pstep G ^^ m) (packet_list ! i) (packet_list' ! i)" by simp
  from psteps_stuck [OF s assms(3,4)] show ?thesis by auto
qed

section \<open>The shape of a path\<close>

lemma last_append_replicate: "ys \<noteq> [] \<Longrightarrow> last (ys @ replicate m (last ys)) = last ys"
  by (cases m) simp_all

lemma path_inv_Packet: "path_inv G (Packet s d)"
  unfolding path_inv_def Packet_def
  by (simp, intro exI [of _ "[s]"] exI [of _ 0]) simp

lemma pstep_path_inv:
  assumes "pstep G p p'" "path_inv G p"
  shows "path_inv G p'"
  using assms
proof (induction rule: pstep.induct)
  case (skip p)
  then show ?case by simp
next
  case (arrive p)
  then show ?case unfolding path_inv_def by (simp, metis)
next
  case (blocked p ns)
  from blocked.prems obtain ys m where c: "current p = last (path p)"
    and ys: "path p = ys @ replicate m (last ys)" "ys \<noteq> []" "distinct ys"
    unfolding path_inv_def by blast
  from c ys have l: "current p = last ys" by (simp add: last_append_replicate)
  have 1: "path p @ [current p] = ys @ replicate (Suc m) (last ys)"
    using ys(1) l by (simp add: replicate_append_same)
  have 2: "filter (\<lambda>n. n \<notin> set (path p @ [current p])) ns = []"
    using blocked.hyps(4) by (auto simp: filter_empty_conv)
  let ?p' = "p\<lparr>blocked_steps := Suc (blocked_steps p), path := path p @ [current p]\<rparr>"
  have a: "current ?p' = last (path ?p')" by simp
  have b: "path ?p' = ys @ replicate (Suc m) (last ys)" using 1 by simp
  have c: "neighbors G (current ?p') = Inr ns" using blocked.hyps(3) by simp
  have d: "filter (\<lambda>n. n \<notin> set (path ?p')) ns = []" using 2 by simp
  from a b ys(2,3) c d show ?case unfolding path_inv_def by blast
next
  case (hop p ns h)
  from hop.prems obtain ys m where c: "current p = last (path p)"
    and ys: "path p = ys @ replicate m (last ys)" "ys \<noteq> []" "distinct ys"
    and m: "m = 0 \<or> (\<exists>ns. neighbors G (current p) = Inr ns \<and>
                          filter (\<lambda>n. n \<notin> set (path p)) ns = [])"
    unfolding path_inv_def by blast
  from hop.hyps(4) have h: "h \<in> set ns" "h \<notin> set (path p)" by auto
  have "m = 0"
  proof (rule ccontr)
    assume "m \<noteq> 0"
    with m obtain ns' where "neighbors G (current p) = Inr ns'"
      "filter (\<lambda>n. n \<notin> set (path p)) ns' = []" by blast
    with hop.hyps(3) have "filter (\<lambda>n. n \<notin> set (path p)) ns = []" by simp
    with hop.hyps(4) show False by simp
  qed
  with ys have p: "path p = ys" by simp
  with h ys have d: "distinct (ys @ [h])" by simp
  let ?p' = "p\<lparr>current := h, path := path p @ [h]\<rparr>"
  have a: "current ?p' = last (path ?p')" by simp
  have b: "path ?p' = (ys @ [h]) @ replicate 0 (last (ys @ [h]))" using p by simp
  have c: "ys @ [h] \<noteq> []" by simp
  from a b c d show ?case unfolding path_inv_def by blast
qed

lemma psteps_path_inv: "(pstep G ^^ k) p p' \<Longrightarrow> path_inv G p \<Longrightarrow> path_inv G p'"
proof (induction k arbitrary: p')
  case 0
  then show ?case by simp
next
  case (Suc k)
  from Suc.prems(1) obtain q where q: "(pstep G ^^ k) p q" "pstep G q p'" by auto
  from pstep_path_inv [OF q(2) Suc.IH [OF q(1) Suc.prems(2)]] show ?case .
qed

lemma random_sample2_in:
  assumes "random_sample2 population r = Inr (s, d)"
  shows "s \<in> set population \<and> d \<in> set population \<and> (distinct population \<longrightarrow> s \<noteq> d)"
proof -
  let ?n = "length population"
  let ?i = "fst r mod ?n"
  let ?rest = "take ?i population @ drop (Suc ?i) population"
  let ?j = "snd r mod length ?rest"
  from assms have n: "2 \<le> ?n" by (auto simp: random_sample2_def split: if_splits)
  with assms have s: "s = population ! ?i" and d: "d = ?rest ! ?j"
    by (auto simp: random_sample2_def Let_def)
  from n have "0 < ?n" by linarith
  then have i: "?i < ?n" by (rule mod_less_divisor)
  then have lr: "length ?rest = ?n - 1" by simp
  with n have "0 < length ?rest" by linarith
  then have j: "?j < length ?rest" by (rule mod_less_divisor)
  then have dr: "d \<in> set ?rest" unfolding d by (rule nth_mem)
  have sub: "set ?rest \<subseteq> set population"
    using set_take_subset [of ?i population] set_drop_subset [of "Suc ?i" population] by auto
  have "distinct population \<Longrightarrow> population ! ?i \<notin> set ?rest"
  proof -
    assume "distinct population"
    then have "distinct (take ?i population @ population ! ?i # drop (Suc ?i) population)"
      using id_take_nth_drop [OF i] by simp
    then show ?thesis by auto
  qed
  with s dr sub i show ?thesis by auto
qed

lemma create_packets_init:
  "create_packets G draws acc = Inr ps \<Longrightarrow>
   \<forall>p \<in> set acc. \<exists>s d. p = Packet s d \<and> s \<in> set (graph_nodes G) \<Longrightarrow>
   \<forall>p \<in> set ps. \<exists>s d. p = Packet s d \<and> s \<in> set (graph_nodes G)"
proof (induction draws arbitrary: acc)
  case Nil
  then show ?case by simp
next
  case (Cons r rs)
  from Cons.prems(1) obtain s d where sd: "random_sample2 (graph_nodes G) r = Inr (s, d)"
    and c: "create_packets G rs (acc @ [Packet s d]) = Inr ps"
    by (auto split: sum.splits)
  from random_sample2_in [OF sd] have "s \<in> set (graph_nodes G)" by simp
  with Cons.prems(2) have "\<forall>p \<in> set (acc @ [Packet s d]). \<exists>s d. p = Packet s d \<and> s \<in> set (graph_nodes G)"
    by auto
  from Cons.IH [OF c this] show ?case .
qed

lemma path_shape_steps:
  assumes "create_packets G draws [] = Inr packet_list0"
    and "run_steps G k packet_list0 = Inr packet_list"
    and "i < length packet_list"
  shows "current (packet_list ! i) = last (path (packet_list ! i)) \<and>
         (\<exists>ys m. path (packet_list ! i) = ys @ replicate m (last ys) \<and> ys \<noteq> [] \<and> distinct ys \<and>
            (m = 0 \<or> (\<exists>ns. neighbors G (current (packet_list ! i)) = Inr ns \<and>
                           filter (\<lambda>n. n \<notin> set (path (packet_list ! i))) ns = [])))"
proof -
  from run_steps_psteps [OF assms(2)] assms(3)
  have i: "i < length packet_list0" and s: "(pstep G ^^ k) (packet_list0 ! i) (packet_list ! i)"
    by simp_all
  from create_packets_init [OF assms(1)] i obtain s0 d0 where "packet_list0 ! i = Packet s0 d0"
    by (metis empty_iff list.set(1) nth_mem)
  then have "path_inv G (packet_list0 ! i)" by (simp add: path_inv_Packet)
  from psteps_path_inv [OF s this] show ?thesis unfolding path_inv_def .
qed

section \<open>Concrete runs\<close>

lemma mesh2_graph:
  "generate_topology Mesh 2 =
     [([0, 0], [[1, 0], [0, 1]]), ([0, 1], [[1, 1], [0, 0]]),
      ([1, 0], [[0, 0], [1, 1]]), ([1, 1], [[0, 1], [1, 0]])]"
  by code_simp

lemma mesh3_graph:
  "generate_topology Mesh 3 =
     [([0, 0], [[1, 0], [0, 1]]), ([0, 1], [[1, 1], [0, 0], [0, 2]]),
      ([0, 2], [[1, 2], [0, 1]]), ([1, 0], [[0, 0], [2, 0], [1, 1]]),
      ([1, 1], [[0, 1], [2, 1], [1, 0], [1, 2]]),
      ([1, 2], [[0, 2], [2, 2], [1, 1]]), ([2, 0], [[1, 0], [2, 1]]),
      ([2, 1], [[1, 1], [2, 0], [2, 2]]), ([2, 2], [[1, 2], [2, 1]])]"
  by code_simp

text \<open>
  On the 2 x 2 mesh, a packet at (0,0) with another packet waiting on (1,0): the router
  passes over the first neighbour (1,0) and returns (0,1).
\<close>

theorem router_picks_least_congested_witness:
  "adaptive_next_hop (generate_topology Mesh 2) [Packet [0, 0] [1, 1], Packet [1, 0] [0, 1]] 0
     = Inr ([0, 1], [Packet [0, 0] [1, 1], Packet [1, 0] [0, 1]]) \<and>
   others_at [Packet [0, 0] [1, 1], Packet [1, 0] [0, 1 :: nat]] 0 [1, 0] = 1 \<and>
   others_at [Packet [0, 0] [1, 1], Packet [1, 0] [0, 1 :: nat]] 0 [0, 1] = 0 \<and>
   (\<exists>j < length [[1, 0], [0, 1 :: nat]].
      adaptive_next_hop (generate_topology Mesh 2) [Packet [0, 0] [1, 1], Packet [1, 0] [0, 1]] 0
        = Inr ([[1, 0], [0, 1]] ! j, [Packet [0, 0] [1, 1], Packet [1, 0] [0, 1]]) \<and>
      (\<forall>k < length [[1, 0], [0, 1 :: nat]].
         others_at [Packet [0, 0] [1, 1], Packet [1, 0] [0, 1]] 0 ([[1, 0], [0, 1 :: nat]] ! j)
           \<le> others_at [Packet [0, 0] [1, 1], Packet [1, 0] [0, 1]] 0 ([[1, 0], [0, 1 :: nat]] ! k)) \<and>
      (\<forall>k < j.
         others_at [Packet [0, 0] [1, 1], Packet [1, 0] [0, 1]] 0 ([[1, 0], [0, 1 :: nat]] ! j)
           < others_at [Packet [0, 0] [1, 1], Packet [1, 0] [0, 1]] 0 ([[1, 0], [0, 1 :: nat]] ! k)))"
proof -
  let ?ps = "[Packet [0, 0] [1, 1], Packet [1, 0] [0, 1 :: nat]]"
  let ?G = "generate_topology Mesh 2"
  have h1: "0 < length ?ps" by simp
  have h2: "neighbors ?G (current (?ps ! 0)) = Inr [[1, 0], [0, 1]]"
    by (simp add: mesh2_graph neighbors_def Packet_def)
  have h3: "[[1, 0], [0, 1]] = filter (\<lambda>n. n \<notin> set (path (?ps ! 0))) [[1, 0], [0, 1 :: nat]]"
    by (simp add: Packet_def)
  have h4: "[[1, 0], [0, 1 :: nat]] \<noteq> []" by simp
  have h5: "current (?ps ! 0) \<in> set (path (?ps ! 0))" by (simp add: Packet_def)
  have a: "adaptive_next_hop ?G ?ps 0 = Inr ([0, 1], ?ps)"
    by code_simp
  have b: "others_at ?ps 0 [1, 0] = 1" by code_simp
  have c: "others_at ?ps 0 [0, 1] = 0" by code_simp
  note d = router_picks_least_congested [OF h1 h2 h3 h4 h5]
  show ?thesis
    apply (intro conjI)
       apply (rule a)
      apply (rule b)
     apply (rule c)
    apply (rule d)
    done
qed

text \<open>
  On the 3 x 3 mesh, a packet that walked from (0,1) into the corner (0,0): both
  neighbours are on its path, the router returns (0,0) and counts one blocked step.
\<close>

theorem blocked_steps_iff_no_progress_witness:
  "neighbors (generate_topology Mesh 3) [0, 0] = Inr [[1, 0], [0, 1]] \<and>
   (\<exists>next_hop packet_list'.
      adaptive_next_hop (generate_topology Mesh 3)
        [\<lparr>src = [0, 1], dst = [0, 2], current = [0, 0],
          path = [[0, 1], [1, 1], [2, 1], [2, 0], [1, 0], [0, 0]],
          completed = False, blocked_steps = 0\<rparr>] 0 = Inr (next_hop, packet_list') \<and>
      next_hop = [0, 0] \<and> blocked_steps (packet_list' ! 0) = 1)"
proof -
  let ?p = "\<lparr>src = [0, 1], dst = [0, 2], current = [0, 0 :: nat],
          path = [[0, 1], [1, 1], [2, 1], [2, 0], [1, 0], [0, 0]],
          completed = False, blocked_steps = 0\<rparr>"
  let ?G = "generate_topology Mesh 3"
  have h1: "0 < length [?p]" by simp
  have h2: "neighbors ?G (current ([?p] ! 0)) = Inr [[1, 0], [0, 1]]"
    by (simp add: mesh3_graph neighbors_def)
  have h3: "current ([?p] ! 0) \<in> set (path ([?p] ! 0))" by simp
  have f: "filter (\<lambda>n. n \<notin> set (path ([?p] ! 0))) [[1, 0], [0, 1]] = []" by simp
  from blocked_steps_iff_no_progress [OF h1 h2 h3]
  obtain next_hop packet_list' where r: "adaptive_next_hop ?G [?p] 0 = Inr (next_hop, packet_list')"
    and e: "next_hop = current ([?p] ! 0) \<longleftrightarrow> filter (\<lambda>n. n \<notin> set (path ([?p] ! 0))) [[1, 0], [0, 1]] = []"
    and b: "next_hop = current ([?p] ! 0) \<longleftrightarrow> blocked_steps (packet_list' ! 0) = blocked_steps ([?p] ! 0) + 1"
    by blast
  from e f have n: "next_hop = [0, 0]" by simp
  with b have "blocked_steps (packet_list' ! 0) = 1" by simp
  with r n have "\<exists>next_hop packet_list'. adaptive_next_hop ?G [?p] 0 = Inr (next_hop, packet_list') \<and>
      next_hop = [0, 0] \<and> blocked_steps (packet_list' ! 0) = 1" by blast
  moreover from h2 have "neighbors ?G [0, 0] = Inr [[1, 0], [0, 1]]" by simp
  ultimately show ?thesis by (rule conjI [rotated])
qed

lemma run_steps_length: "run_steps G k ps = Inr ps' \<Longrightarrow> length ps' = length ps"
  using run_steps_psteps by blast

text \<open>
  Claim C6. Mesh with \<open>n = 2\<close> and one packet from (0,0) to (1,1) (the draw
  \<open>(0, 2)\<close> picks these two nodes): the neighbours of (0,0) are enumerated as (1,0),
  (0,1); after two iterations the path is (0,0), (1,0), (1,1), of length 3, and the
  packet is on its destination; the report of the whole run gives this path with status
  Completed.
\<close>

theorem mesh2_diagonal_scenario:
  "create_packets (generate_topology Mesh 2) [(0, 2)] [] = Inr [Packet [0, 0] [1, 1]] \<and>
   neighbors (generate_topology Mesh 2) [0, 0] = Inr [[1, 0], [0, 1]] \<and>
   run_steps (generate_topology Mesh 2) 2 [Packet [0, 0] [1, 1]]
     = Inr [\<lparr>src = [0, 0], dst = [1, 1], current = [1, 1], path = [[0, 0], [1, 0], [1, 1]],
             completed = False, blocked_steps = 0\<rparr>] \<and>
   length [[0, 0], [1, 0], [1, 1 :: nat]] = 3 \<and>
   (\<exists>r. app Mesh 2 [(0, 2)] = Inr r \<and>
        report r = [(1, [[0, 0], [1, 0], [1, 1]], ''Completed'')])"
proof -
  have 1: "create_packets (generate_topology Mesh 2) [(0, 2)] [] = Inr [Packet [0, 0] [1, 1]]"
    by code_simp
  have 2: "neighbors (generate_topology Mesh 2) [0, 0] = Inr [[1, 0], [0, 1]]"
    by (simp add: mesh2_graph neighbors_def)
  have 3: "run_steps (generate_topology Mesh 2) 2 [Packet [0, 0] [1, 1]]
     = Inr [\<lparr>src = [0, 0], dst = [1, 1], current = [1, 1], path = [[0, 0], [1, 0], [1, 1]],
             completed = False, blocked_steps = 0\<rparr>]"
    by code_simp
  have 4: "length [[0, 0], [1, 0], [1, 1 :: nat]] = 3" by simp
  have 5: "map_sum id report (app Mesh 2 [(0, 2)]) = Inr [(1, [[0, 0], [1, 0], [1, 1]], ''Completed'')]"
    by code_simp
  then have 6: "\<exists>r. app Mesh 2 [(0, 2)] = Inr r \<and>
        report r = [(1, [[0, 0], [1, 0], [1, 1]], ''Completed'')]"
    by (cases "app Mesh 2 [(0, 2)]") auto
  from 1 2 3 4 6 show ?thesis by (intro conjI)
qed

section \<open>Building graphs\<close>

lemma graph_nodes_add_nbr: "graph_nodes (add_nbr u v G) = graph_nodes G"
  by (induction G) (auto simp: add_nbr_def graph_nodes_def)

lemma graph_nodes_add_node:
  "graph_nodes (add_node G v) = (if v \<in> set (graph_nodes G) then graph_nodes G else graph_nodes G @ [v])"
  by (simp add: add_node_def graph_nodes_def)

lemma map_of_add_nbr:
  "map_of (add_nbr u v G) x =
     map_option (\<lambda>ns. if x = u \<and> v \<notin> set ns then ns @ [v] else ns) (map_of G x)"
  by (induction G) (auto simp: add_nbr_def)

lemma map_of_None_nodes: "map_of G x = None \<longleftrightarrow> x \<notin> set (graph_nodes G)"
  by (simp add: graph_nodes_def map_of_eq_None_iff)

lemma map_of_Some_nodes: "map_of G x = Some ns \<Longrightarrow> x \<in> set (graph_nodes G)"
  using map_of_None_nodes [of G x] by auto

lemma map_of_add_node:
  "map_of (add_node G v) x = (if x = v \<and> v \<notin> set (graph_nodes G) then Some [] else map_of G x)"
proof (cases "v \<in> set (graph_nodes G)")
  case True
  then show ?thesis by (simp add: add_node_def graph_nodes_def)
next
  case False
  then have "map_of G v = None" by (simp add: map_of_None_nodes)
  with False show ?thesis
    by (auto simp: add_node_def graph_nodes_def map_add_def split: option.splits)
qed

lemma nbrs_add_node: "nbrs (add_node G v) x = nbrs G x"
  using map_of_None_nodes [of G v]
  by (auto simp: nbrs_def map_of_add_node split: option.splits)

lemma nbrs_add_nbr:
  "nbrs (add_nbr u v G) x =
     (if x = u \<and> u \<in> set (graph_nodes G) \<and> v \<notin> set (nbrs G u) then nbrs G u @ [v] else nbrs G x)"
  using map_of_None_nodes [of G u]
  by (auto simp: nbrs_def map_of_add_nbr split: option.splits)

lemma graph_nodes_add_edge:
  "set (graph_nodes (add_edge G (u, v))) = insert u (insert v (set (graph_nodes G)))"
  by (auto simp: add_edge_def graph_nodes_add_nbr graph_nodes_add_node)

lemma graph_nodes_add_edge_same:
  "u \<in> set (graph_nodes G) \<Longrightarrow> v \<in> set (graph_nodes G) \<Longrightarrow> graph_nodes (add_edge G (u, v)) = graph_nodes G"
  by (simp add: add_edge_def graph_nodes_add_nbr graph_nodes_add_node)

lemma set_nbrs_add_edge:
  "set (nbrs (add_edge G (u, v)) x) =
     set (nbrs G x) \<union> (if x = u then {v} else {}) \<union> (if x = v then {u} else {})"
  by (auto simp: add_edge_def nbrs_add_nbr nbrs_add_node graph_nodes_add_nbr graph_nodes_add_node)

lemma distinct_nbrs_add_edge:
  "distinct (nbrs G x) \<Longrightarrow> distinct (nbrs (add_edge G (u, v)) x)"
  by (auto simp: add_edge_def nbrs_add_nbr nbrs_add_node graph_nodes_add_nbr graph_nodes_add_node)

lemma graph_nodes_add_edges_from:
  "set (graph_nodes (add_edges_from G es)) = set (graph_nodes G) \<union> fst ` set es \<union> snd ` set es"
  unfolding add_edges_from_def
proof (induction es arbitrary: G)
  case Nil
  show ?case by simp
next
  case (Cons e es)
  obtain u v where e: "e = (u, v)" by (cases e)
  show ?case using Cons [of "add_edge G e"] by (auto simp: e graph_nodes_add_edge)
qed

lemma graph_nodes_add_edges_from_same:
  "fst ` set es \<union> snd ` set es \<subseteq> set (graph_nodes G) \<Longrightarrow>
   graph_nodes (add_edges_from G es) = graph_nodes G"
  unfolding add_edges_from_def
proof (induction es arbitrary: G)
  case Nil
  show ?case by simp
next
  case (Cons e es)
  obtain u v where e: "e = (u, v)" by (cases e)
  from Cons.prems e have n: "graph_nodes (add_edge G e) = graph_nodes G"
    by (simp add: graph_nodes_add_edge_same)
  with Cons.prems have "fst ` set es \<union> snd ` set es \<subseteq> set (graph_nodes (add_edge G e))" by simp
  from Cons.IH [OF this] n show ?case by simp
qed

lemma set_nbrs_add_edges_from:
  "set (nbrs (add_edges_from G es) x) =
     set (nbrs G x) \<union> {y. (x, y) \<in> set es \<or> (y, x) \<in> set es}"
  unfolding add_edges_from_def
proof (induction es arbitrary: G)
  case Nil
  show ?case by simp
next
  case (Cons e es)
  obtain u v where e: "e = (u, v)" by (cases e)
  show ?case using Cons [of "add_edge G e"] by (auto simp: e set_nbrs_add_edge split: if_splits)
qed

lemma distinct_nbrs_add_edges_from:
  "distinct (nbrs G x) \<Longrightarrow> distinct (nbrs (add_edges_from G es) x)"
  unfolding add_edges_from_def
proof (induction es arbitrary: G)
  case Nil
  then show ?case by simp
next
  case (Cons e es)
  obtain u v where e: "e = (u, v)" by (cases e)
  from Cons.prems have "distinct (nbrs (add_edge G e) x)" unfolding e by (rule distinct_nbrs_add_edge)
  from Cons.IH [OF this] show ?case by simp
qed

lemma graph_nodes_add_nodes_from:
  "distinct (graph_nodes G @ vs) \<Longrightarrow> graph_nodes (add_nodes_from G vs) = graph_nodes G @ vs"
  unfolding add_nodes_from_def
proof (induction vs arbitrary: G)
  case Nil
  show ?case by simp
next
  case (Cons v vs)
  from Cons.prems have n: "graph_nodes (add_node G v) = graph_nodes G @ [v]"
    by (simp add: graph_nodes_add_node)
  with Cons.prems have "distinct (graph_nodes (add_node G v) @ vs)" by simp
  from Cons.IH [OF this] n show ?case by simp
qed

lemma nbrs_add_nodes_from: "nbrs (add_nodes_from G vs) x = nbrs G x"
  unfolding add_nodes_from_def
  by (induction vs arbitrary: G) (simp_all add: nbrs_add_node)

lemma nbrs_empty_graph: "nbrs [] x = []"
  by (simp add: nbrs_def)

text \<open>
  A graph built from a list of distinct nodes and a list of edges between them: its
  nodes are the list, and the neighbours of a node are the other ends of its edges.
\<close>

lemma built_graph:
  assumes "distinct vs" and "fst ` set es \<union> snd ` set es \<subseteq> set vs"
  shows "graph_nodes (add_edges_from (add_nodes_from [] vs) es) = vs"
    and "set (nbrs (add_edges_from (add_nodes_from [] vs) es) x) = {y. (x, y) \<in> set es \<or> (y, x) \<in> set es}"
    and "distinct (nbrs (add_edges_from (add_nodes_from [] vs) es) x)"
proof -
  from assms(1) have n: "graph_nodes (add_nodes_from [] vs) = vs"
    using graph_nodes_add_nodes_from [of "[]" vs] by (simp add: graph_nodes_def)
  with assms(2) show "graph_nodes (add_edges_from (add_nodes_from [] vs) es) = vs"
    by (simp add: graph_nodes_add_edges_from_same)
  show "set (nbrs (add_edges_from (add_nodes_from [] vs) es) x) = {y. (x, y) \<in> set es \<or> (y, x) \<in> set es}"
    by (simp add: set_nbrs_add_edges_from nbrs_add_nodes_from nbrs_empty_graph)
  show "distinct (nbrs (add_edges_from (add_nodes_from [] vs) es) x)"
    by (rule distinct_nbrs_add_edges_from) (simp add: nbrs_add_nodes_from nbrs_empty_graph)
qed

lemma add_edges_from_append:
  "add_edges_from (add_edges_from G es) es' = add_edges_from G (es @ es')"
  by (simp add: add_edges_from_def)

lemma neighbors_nbrs:
  "x \<in> set (graph_nodes G) \<Longrightarrow> neighbors G x = Inr (nbrs G x)"
  using map_of_None_nodes [of G x]
  by (auto simp: neighbors_def nbrs_def split: option.splits)

lemma neighbors_Inr_nbrs: "neighbors G x = Inr ns \<Longrightarrow> ns = nbrs G x \<and> x \<in> set (graph_nodes G)"
  using map_of_None_nodes [of G x]
  by (auto simp: neighbors_def nbrs_def split: option.splits)

section \<open>The grid\<close>

lemma set_pairwise_upt: "(a, b) \<in> set (pairwise_py [0..<n]) \<longleftrightarrow> b = Suc a \<and> Suc a < n"
proof -
  have t: "tl [0..<n] = [Suc 0..<n]" by (simp add: tl_upt)
  show ?thesis
  proof
    assume "(a, b) \<in> set (pairwise_py [0..<n])"
    then obtain i where "[0..<n] ! i = a" "[Suc 0..<n] ! i = b" "i < n" "i < n - Suc 0"
      by (auto simp: pairwise_py_def in_set_zip t)
    then show "b = Suc a \<and> Suc a < n" by auto
  next
    assume h: "b = Suc a \<and> Suc a < n"
    then have "[0..<n] ! a = a" "[Suc 0..<n] ! a = b" "a < n" "a < n - Suc 0" by auto
    then show "(a, b) \<in> set (pairwise_py [0..<n])"
      unfolding pairwise_py_def in_set_zip t by (intro exI [of _ a]) simp
  qed
qed

lemma grid_2d_graph_built:
  "grid_2d_graph n n periodic = add_edges_from (add_nodes_from [] (grid_nodes n)) (grid_edges n periodic)"
proof (cases "periodic \<and> n > 2")
  case True
  then have "hd [0..<n] = 0" "last [0..<n] = n - 1" by (simp_all add: hd_upt last_upt)
  with True show ?thesis
    by (simp add: grid_2d_graph_def grid_nodes_def grid_edges_def Let_def add_edges_from_append)
next
  case False
  then show ?thesis
    by (auto simp add: grid_2d_graph_def grid_nodes_def grid_edges_def Let_def add_edges_from_append)
qed

lemma set_grid_nodes: "set (grid_nodes n) = {[i, j] | i j. i < n \<and> j < n}"
  by (auto simp: grid_nodes_def)

lemma distinct_product_list:
  assumes "distinct xs" "distinct ys" "\<And>x y x' y'. f x y = f x' y' \<Longrightarrow> x = x' \<and> y = y'"
  shows "distinct [f x y. x \<leftarrow> xs, y \<leftarrow> ys]"
  using assms(1)
proof (induction xs)
  case Nil
  show ?case by simp
next
  case (Cons x xs)
  have "distinct (map (f x) ys)" using assms(2,3) by (auto simp: distinct_map inj_on_def)
  moreover have "set (map (f x) ys) \<inter> set [f x y. x \<leftarrow> xs, y \<leftarrow> ys] = {}"
    using Cons.prems assms(3) by auto
  ultimately show ?case using Cons by simp
qed

lemma length_product_list: "length [f x y. x \<leftarrow> xs, y \<leftarrow> ys] = length xs * length ys"
  by (induction xs) simp_all

lemma distinct_grid_nodes: "distinct (grid_nodes n)"
  unfolding grid_nodes_def by (rule distinct_product_list) simp_all

lemma length_grid_nodes: "length (grid_nodes n) = n * n"
  unfolding grid_nodes_def by (simp add: length_product_list)

lemma set_row_edges:
  "(x, y) \<in> set [([i, j], [pi, j]). (pi, i) \<leftarrow> pairwise_py [0..<n], j \<leftarrow> [0..<n]] \<longleftrightarrow>
     (\<exists>i j. Suc i < n \<and> j < n \<and> x = [Suc i, j] \<and> y = [i, j])"
  by (auto simp: set_pairwise_upt Bex_def image_iff)

lemma set_col_edges:
  "(x, y) \<in> set [([i, j], [i, pj]). i \<leftarrow> [0..<n], (pj, j) \<leftarrow> pairwise_py [0..<n]] \<longleftrightarrow>
     (\<exists>i j. i < n \<and> Suc j < n \<and> x = [i, Suc j] \<and> y = [i, j])"
  by (auto simp: set_pairwise_upt Bex_def image_iff)

lemma set_wrap_edges:
  "(x, y) \<in> set ([([0, j], [n - 1, j]). j \<leftarrow> [0..<n]] @ [([i, 0], [i, n - 1]). i \<leftarrow> [0..<n]]) \<longleftrightarrow>
     (\<exists>j. j < n \<and> x = [0, j] \<and> y = [n - 1, j]) \<or> (\<exists>i. i < n \<and> x = [i, 0] \<and> y = [i, n - 1])"
  by auto

lemma set_grid_edges:
  "(x, y) \<in> set (grid_edges n periodic) \<longleftrightarrow>
     (\<exists>i j. Suc i < n \<and> j < n \<and> x = [Suc i, j] \<and> y = [i, j]) \<or>
     (\<exists>i j. i < n \<and> Suc j < n \<and> x = [i, Suc j] \<and> y = [i, j]) \<or>
     periodic \<and> n > 2 \<and>
       ((\<exists>j. j < n \<and> x = [0, j] \<and> y = [n - 1, j]) \<or> (\<exists>i. i < n \<and> x = [i, 0] \<and> y = [i, n - 1]))"
proof (cases "periodic \<and> n > 2")
  case True
  then have "grid_edges n periodic =
     [([i, j], [pi, j]). (pi, i) \<leftarrow> pairwise_py [0..<n], j \<leftarrow> [0..<n]] @
     [([i, j], [i, pj]). i \<leftarrow> [0..<n], (pj, j) \<leftarrow> pairwise_py [0..<n]] @
     ([([0, j], [n - 1, j]). j \<leftarrow> [0..<n]] @ [([i, 0], [i, n - 1]). i \<leftarrow> [0..<n]])"
    by (simp add: grid_edges_def)
  then show ?thesis
    using True set_row_edges [of x y n] set_col_edges [of x y n] set_wrap_edges [of x y n]
    by (simp only: set_append Un_iff) blast
next
  case False
  then have "grid_edges n periodic =
     [([i, j], [pi, j]). (pi, i) \<leftarrow> pairwise_py [0..<n], j \<leftarrow> [0..<n]] @
     [([i, j], [i, pj]). i \<leftarrow> [0..<n], (pj, j) \<leftarrow> pairwise_py [0..<n]]"
    by (auto simp add: grid_edges_def)
  then show ?thesis
    using False set_row_edges [of x y n] set_col_edges [of x y n]
    by (simp only: set_append Un_iff) blast
qed

lemma grid_edges_in_nodes:
  "fst ` set (grid_edges n periodic) \<union> snd ` set (grid_edges n periodic) \<subseteq> set (grid_nodes n)"
proof -
  have "x \<in> set (grid_nodes n) \<and> y \<in> set (grid_nodes n)" if "(x, y) \<in> set (grid_edges n periodic)" for x y
    using that unfolding set_grid_edges set_grid_nodes by (auto dest: Suc_lessD)
  then show ?thesis by auto
qed

lemma grid_nodes_eq: "graph_nodes (grid_2d_graph n n periodic) = grid_nodes n"
  unfolding grid_2d_graph_built
  by (rule built_graph(1) [OF distinct_grid_nodes grid_edges_in_nodes])

lemma grid_nbrs:
  "set (nbrs (grid_2d_graph n n periodic) x) =
     {y. (x, y) \<in> set (grid_edges n periodic) \<or> (y, x) \<in> set (grid_edges n periodic)}"
  unfolding grid_2d_graph_built
  by (rule built_graph(2) [OF distinct_grid_nodes grid_edges_in_nodes])

lemma grid_nbrs_distinct: "distinct (nbrs (grid_2d_graph n n periodic) x)"
  unfolding grid_2d_graph_built
  by (rule built_graph(3) [OF distinct_grid_nodes grid_edges_in_nodes])

lemma mesh_nbrs_set:
  assumes "i < n" "j < n"
  shows "set (nbrs (grid_2d_graph n n False) [i, j]) =
     (if 0 < i then {[i - 1, j]} else {}) \<union> (if Suc i < n then {[Suc i, j]} else {}) \<union>
     (if 0 < j then {[i, j - 1]} else {}) \<union> (if Suc j < n then {[i, Suc j]} else {})"
  (is "?L = ?R")
proof (rule set_eqI)
  fix y
  have "y \<in> ?L \<longleftrightarrow>
      (\<exists>i'. i = Suc i' \<and> y = [i', j]) \<or> (\<exists>j'. j = Suc j' \<and> y = [i, j']) \<or>
      (Suc i < n \<and> y = [Suc i, j]) \<or> (Suc j < n \<and> y = [i, Suc j])"
    using assms unfolding grid_nbrs set_grid_edges by auto
  also have "\<dots> \<longleftrightarrow> y \<in> ?R"
    by (cases i; cases j) auto
  finally show "y \<in> ?L \<longleftrightarrow> y \<in> ?R" .
qed

lemma degree_card: "distinct (nbrs G x) \<Longrightarrow> degree G x = card (set (nbrs G x))"
  by (simp add: degree_def distinct_card)

lemma mesh_degree:
  assumes "i < n" "j < n"
  shows "degree (grid_2d_graph n n False) [i, j] =
     (if 0 < i then 1 else 0) + (if Suc i < n then 1 else 0) +
     (if 0 < j then 1 else 0) + (if Suc j < n then 1 else 0)"
  unfolding degree_card [OF grid_nbrs_distinct] mesh_nbrs_set [OF assms]
  by (cases i; cases j) auto

lemma torus_nbrs_set:
  assumes "i < n" "j < n" "2 < n"
  shows "set (nbrs (grid_2d_graph n n True) [i, j]) =
     {[if i = 0 then n - 1 else i - 1, j], [if Suc i = n then 0 else Suc i, j],
      [i, if j = 0 then n - 1 else j - 1], [i, if Suc j = n then 0 else Suc j]}"
  (is "?L = ?R")
proof (rule set_eqI)
  fix y
  have up: "(\<exists>i' j'. Suc i' < n \<and> j' < n \<and> [i, j] = [Suc i', j'] \<and> y = [i', j']) \<longleftrightarrow> (0 < i \<and> y = [i - 1, j])"
    using assms by (cases i) auto
  have left: "(\<exists>i' j'. i' < n \<and> Suc j' < n \<and> [i, j] = [i', Suc j'] \<and> y = [i', j']) \<longleftrightarrow> (0 < j \<and> y = [i, j - 1])"
    using assms by (cases j) auto
  have down: "(\<exists>i' j'. Suc i' < n \<and> j' < n \<and> y = [Suc i', j'] \<and> [i, j] = [i', j']) \<longleftrightarrow> (Suc i < n \<and> y = [Suc i, j])"
    using assms by auto
  have right: "(\<exists>i' j'. i' < n \<and> Suc j' < n \<and> y = [i', Suc j'] \<and> [i, j] = [i', j']) \<longleftrightarrow> (Suc j < n \<and> y = [i, Suc j])"
    using assms by auto
  have w1: "(\<exists>j'. j' < n \<and> [i, j] = [0, j'] \<and> y = [n - 1, j']) \<longleftrightarrow> (i = 0 \<and> y = [n - 1, j])"
    using assms by auto
  have w2: "(\<exists>i'. i' < n \<and> [i, j] = [i', 0] \<and> y = [i', n - 1]) \<longleftrightarrow> (j = 0 \<and> y = [i, n - 1])"
    using assms by auto
  have w3: "(\<exists>j'. j' < n \<and> y = [0, j'] \<and> [i, j] = [n - 1, j']) \<longleftrightarrow> (Suc i = n \<and> y = [0, j])"
    using assms by auto
  have w4: "(\<exists>i'. i' < n \<and> y = [i', 0] \<and> [i, j] = [i', n - 1]) \<longleftrightarrow> (Suc j = n \<and> y = [i, 0])"
    using assms by auto
  have "y \<in> ?L \<longleftrightarrow>
      (0 < i \<and> y = [i - 1, j]) \<or> (0 < j \<and> y = [i, j - 1]) \<or>
      (Suc i < n \<and> y = [Suc i, j]) \<or> (Suc j < n \<and> y = [i, Suc j]) \<or>
      (i = 0 \<and> y = [n - 1, j]) \<or> (j = 0 \<and> y = [i, n - 1]) \<or>
      (Suc i = n \<and> y = [0, j]) \<or> (Suc j = n \<and> y = [i, 0])"
    unfolding grid_nbrs set_grid_edges mem_Collect_eq up left down right w1 w2 w3 w4
    using assms(3) by blast
  also have "\<dots> \<longleftrightarrow> y \<in> ?R"
  proof -
    have r: "(0 < i \<and> y = [i - 1, j]) \<or> (i = 0 \<and> y = [n - 1, j]) \<longleftrightarrow> y = [if i = 0 then n - 1 else i - 1, j]"
      by auto
    have c: "(0 < j \<and> y = [i, j - 1]) \<or> (j = 0 \<and> y = [i, n - 1]) \<longleftrightarrow> y = [i, if j = 0 then n - 1 else j - 1]"
      by auto
    have r': "(Suc i < n \<and> y = [Suc i, j]) \<or> (Suc i = n \<and> y = [0, j]) \<longleftrightarrow> y = [if Suc i = n then 0 else Suc i, j]"
      using assms(1) by auto
    have c': "(Suc j < n \<and> y = [i, Suc j]) \<or> (Suc j = n \<and> y = [i, 0]) \<longleftrightarrow> y = [i, if Suc j = n then 0 else Suc j]"
      using assms(2) by auto
    show ?thesis
      unfolding insert_iff empty_iff r [symmetric] c [symmetric] r' [symmetric] c' [symmetric]
      by blast
  qed
  finally show "y \<in> ?L \<longleftrightarrow> y \<in> ?R" .
qed

lemma torus_degree:
  assumes "i < n" "j < n" "2 < n"
  shows "degree (grid_2d_graph n n True) [i, j] = 4"
proof -
  define a b c d where "a = (if i = 0 then n - 1 else i - 1)" and "b = (if Suc i = n then 0 else Suc i)"
    and "c = (if j = 0 then n - 1 else j - 1)" and "d = (if Suc j = n then 0 else Suc j)"
  have ne: "a \<noteq> i" "b \<noteq> i" "a \<noteq> b" "c \<noteq> j" "d \<noteq> j" "c \<noteq> d"
    using assms unfolding a_def b_def c_def d_def by auto
  have "set (nbrs (grid_2d_graph n n True) [i, j]) = {[a, j], [b, j], [i, c], [i, d]}"
    unfolding a_def b_def c_def d_def by (rule torus_nbrs_set [OF assms])
  then have "degree (grid_2d_graph n n True) [i, j] = card {[a, j], [b, j], [i, c], [i, d]}"
    by (simp add: degree_card [OF grid_nbrs_distinct])
  also have "\<dots> = 4" using ne by simp
  finally show ?thesis .
qed

lemma torus2_is_mesh2: "grid_2d_graph 2 2 True = grid_2d_graph 2 2 False"
  by (simp add: grid_2d_graph_def Let_def)

section \<open>Connectedness of the grid\<close>

lemma connected_via:
  assumes "sym (adjacent G)" "\<And>u. u \<in> set (graph_nodes G) \<Longrightarrow> (u, c) \<in> (adjacent G)\<^sup>*"
  shows "connected G"
  unfolding connected_def
proof (intro ballI)
  fix u v assume u: "u \<in> set (graph_nodes G)" and v: "v \<in> set (graph_nodes G)"
  from assms(1) have "sym ((adjacent G)\<^sup>*)" by (rule sym_rtrancl)
  from symD [OF this assms(2) [OF v]] have "(c, v) \<in> (adjacent G)\<^sup>*" .
  with assms(2) [OF u] show "(u, v) \<in> (adjacent G)\<^sup>*" by (rule rtrancl_trans)
qed

lemma built_graph_sym:
  assumes "\<And>x. set (nbrs G x) = {y. (x, y) \<in> E \<or> (y, x) \<in> E}"
  shows "sym (adjacent G)"
  unfolding adjacent_def sym_def using assms by auto

lemma grid_sym: "sym (adjacent (grid_2d_graph n n periodic))"
  by (rule built_graph_sym [OF grid_nbrs])

lemma grid_step_row:
  assumes "Suc i < n" "j < n"
  shows "([Suc i, j], [i, j]) \<in> adjacent (grid_2d_graph n n periodic)"
proof -
  from assms have "\<exists>i' j'. Suc i' < n \<and> j' < n \<and> [Suc i, j] = [Suc i', j'] \<and> [i, j] = [i', j']"
    by simp
  then have "([Suc i, j], [i, j]) \<in> set (grid_edges n periodic)"
    unfolding set_grid_edges by (rule disjI1)
  then show ?thesis by (simp add: adjacent_def grid_nbrs)
qed

lemma grid_step_col:
  assumes "i < n" "Suc j < n"
  shows "([i, Suc j], [i, j]) \<in> adjacent (grid_2d_graph n n periodic)"
proof -
  from assms have "\<exists>i' j'. i' < n \<and> Suc j' < n \<and> [i, Suc j] = [i', Suc j'] \<and> [i, j] = [i', j']"
    by simp
  then have "([i, Suc j], [i, j]) \<in> set (grid_edges n periodic)"
    unfolding set_grid_edges by (intro disjI2 disjI1)
  then show ?thesis by (simp add: adjacent_def grid_nbrs)
qed

lemma grid_reach_row0:
  "i < n \<Longrightarrow> j < n \<Longrightarrow> ([i, j], [0, j]) \<in> (adjacent (grid_2d_graph n n periodic))\<^sup>*"
proof (induction i)
  case 0
  show ?case by simp
next
  case (Suc i)
  from Suc.prems have "([Suc i, j], [i, j]) \<in> adjacent (grid_2d_graph n n periodic)"
    by (intro grid_step_row)
  moreover from Suc have "([i, j], [0, j]) \<in> (adjacent (grid_2d_graph n n periodic))\<^sup>*" by simp
  ultimately show ?case by (rule converse_rtrancl_into_rtrancl)
qed

lemma grid_reach_col0:
  "0 < n \<Longrightarrow> j < n \<Longrightarrow> ([0, j], [0, 0]) \<in> (adjacent (grid_2d_graph n n periodic))\<^sup>*"
proof (induction j)
  case 0
  show ?case by simp
next
  case (Suc j)
  from Suc.prems have "([0, Suc j], [0, j]) \<in> adjacent (grid_2d_graph n n periodic)"
    by (intro grid_step_col)
  moreover from Suc have "([0, j], [0, 0]) \<in> (adjacent (grid_2d_graph n n periodic))\<^sup>*" by simp
  ultimately show ?case by (rule converse_rtrancl_into_rtrancl)
qed

lemma grid_connected: "connected (grid_2d_graph n n periodic)"
proof (rule connected_via [OF grid_sym, of _ _ "[0, 0]"])
  fix u assume "u \<in> set (graph_nodes (grid_2d_graph n n periodic))"
  then obtain i j where u: "u = [i, j]" "i < n" "j < n"
    unfolding grid_nodes_eq set_grid_nodes by auto
  from u(2) have "0 < n" by simp
  from grid_reach_row0 [OF u(2,3), of periodic] grid_reach_col0 [OF \<open>0 < n\<close> u(3), of periodic]
  show "(u, [0, 0]) \<in> (adjacent (grid_2d_graph n n periodic))\<^sup>*"
    unfolding u(1) by (rule rtrancl_trans)
qed

section \<open>Edge enumeration and relabelling\<close>

lemma wf_built:
  assumes "distinct vs" and "fst ` set es \<union> snd ` set es \<subseteq> set vs"
  shows "wf_graph (add_edges_from (add_nodes_from [] vs) es)"
proof -
  let ?G = "add_edges_from (add_nodes_from [] vs) es"
  note b = built_graph [OF assms]
  have "set (nbrs ?G x) \<subseteq> set (graph_nodes ?G)" for x
  proof
    fix y assume "y \<in> set (nbrs ?G x)"
    then have "(x, y) \<in> set es \<or> (y, x) \<in> set es" unfolding b(2) by simp
    then have "y \<in> fst ` set es \<union> snd ` set es" by force
    with assms(2) show "y \<in> set (graph_nodes ?G)" unfolding b(1) by auto
  qed
  moreover have "sym (adjacent ?G)" by (rule built_graph_sym [OF b(2)])
  ultimately show ?thesis unfolding wf_graph_def using b(1,3) assms(1) by simp
qed

lemma nbrs_in_set: "distinct (graph_nodes G) \<Longrightarrow> (u, ns) \<in> set G \<Longrightarrow> nbrs G u = ns"
  by (simp add: nbrs_def graph_nodes_def)

lemma nbrs_entry: "v \<in> set (nbrs G u) \<Longrightarrow> (u, nbrs G u) \<in> set G"
  by (auto simp: nbrs_def split: option.splits dest: map_of_SomeD)

lemma edges_from_sound:
  "(u, v) \<in> set (edges_from seen G) \<Longrightarrow> (\<exists>ns. (u, ns) \<in> set G \<and> v \<in> set ns) \<and> v \<notin> set seen"
proof (induction G arbitrary: seen)
  case Nil
  then show ?case by simp
next
  case (Cons e G)
  obtain n ns where e: "e = (n, ns)" by (cases e)
  from Cons.prems consider "u = n \<and> v \<in> set ns \<and> v \<notin> set seen" | "(u, v) \<in> set (edges_from (n # seen) G)"
    unfolding e by auto
  then show ?case
  proof cases
    case 1
    then show ?thesis unfolding e by auto
  next
    case 2
    from Cons.IH [OF 2] show ?thesis by auto
  qed
qed

lemma edges_from_complete:
  assumes "distinct (map fst G)" "set seen \<inter> fst ` set G = {}"
    and "(u, ns) \<in> set G" "v \<in> set ns" "(v, ns') \<in> set G" "u \<in> set ns'"
  shows "(u, v) \<in> set (edges_from seen G) \<or> (v, u) \<in> set (edges_from seen G)"
  using assms
proof (induction G arbitrary: seen)
  case Nil
  then show ?case by simp
next
  case (Cons e G)
  obtain n ns0 where e: "e = (n, ns0)" by (cases e)
  from Cons.prems(1) have nG: "n \<notin> fst ` set G" and dG: "distinct (map fst G)" unfolding e by auto
  from Cons.prems(2,3,5) have us: "u \<notin> set seen" and vs: "v \<notin> set seen" by force+
  show ?case
  proof (cases "u = n")
    case True
    with Cons.prems(3) nG have "ns = ns0" unfolding e by force
    with True Cons.prems(4) vs show ?thesis unfolding e by simp
  next
    case un: False
    show ?thesis
    proof (cases "v = n")
      case True
      with Cons.prems(5) nG have "ns' = ns0" unfolding e by force
      with True Cons.prems(6) us show ?thesis unfolding e by simp
    next
      case False
      with un Cons.prems(3,5) have in': "(u, ns) \<in> set G" "(v, ns') \<in> set G" unfolding e by auto
      from Cons.prems(2) nG have "set (n # seen) \<inter> fst ` set G = {}" unfolding e by auto
      from Cons.IH [OF dG this in'(1) Cons.prems(4) in'(2) Cons.prems(6)]
      show ?thesis unfolding e by auto
    qed
  qed
qed

lemma edges_adjacent:
  assumes "wf_graph G"
  shows "(u, v) \<in> set (edges G) \<or> (v, u) \<in> set (edges G) \<longleftrightarrow> v \<in> set (nbrs G u)"
proof
  from assms have d: "distinct (graph_nodes G)" and s: "sym (adjacent G)"
    by (simp_all add: wf_graph_def)
  assume "(u, v) \<in> set (edges G) \<or> (v, u) \<in> set (edges G)"
  then show "v \<in> set (nbrs G u)"
  proof
    assume "(u, v) \<in> set (edges G)"
    from edges_from_sound [OF this [unfolded edges_def]] nbrs_in_set [OF d] show ?thesis by auto
  next
    assume "(v, u) \<in> set (edges G)"
    from edges_from_sound [OF this [unfolded edges_def]] nbrs_in_set [OF d]
    have "(v, u) \<in> adjacent G" by (auto simp: adjacent_def)
    with s have "(u, v) \<in> adjacent G" by (rule symD)
    then show ?thesis by (simp add: adjacent_def)
  qed
next
  from assms have d: "distinct (map fst G)" and s: "sym (adjacent G)"
    by (simp_all add: wf_graph_def graph_nodes_def)
  assume v: "v \<in> set (nbrs G u)"
  then have "(u, v) \<in> adjacent G" by (simp add: adjacent_def)
  with s have "(v, u) \<in> adjacent G" by (rule symD)
  then have u: "u \<in> set (nbrs G v)" by (simp add: adjacent_def)
  from edges_from_complete [OF d _ nbrs_entry [OF v] v nbrs_entry [OF u] u, of "[]"]
  show "(u, v) \<in> set (edges G) \<or> (v, u) \<in> set (edges G)" by (simp add: edges_def)
qed

lemma edges_in_nodes:
  assumes "wf_graph G" "(u, v) \<in> set (edges G)"
  shows "u \<in> set (graph_nodes G) \<and> v \<in> set (graph_nodes G)"
proof -
  from assms(1) have c: "\<And>x. set (nbrs G x) \<subseteq> set (graph_nodes G)" and s: "sym (adjacent G)"
    by (simp_all add: wf_graph_def)
  from edges_adjacent [OF assms(1), of u v] assms(2) have v: "v \<in> set (nbrs G u)" by simp
  then have "(u, v) \<in> adjacent G" by (simp add: adjacent_def)
  with s have "(v, u) \<in> adjacent G" by (rule symD)
  then have "u \<in> set (nbrs G v)" by (simp add: adjacent_def)
  with v c show ?thesis by blast
qed

lemma relabel_wf:
  assumes "wf_graph G" "inj_on f (set (graph_nodes G))"
  shows "wf_graph (relabel_nodes G f)"
    and "graph_nodes (relabel_nodes G f) = map f (graph_nodes G)"
    and "set (nbrs (relabel_nodes G f) z) = {f y | x y. z = f x \<and> y \<in> set (nbrs G x)}"
proof -
  let ?vs = "map f (graph_nodes G)"
  let ?es = "map (\<lambda>(n1, n2). (f n1, f n2)) (edges G)"
  from assms have d: "distinct ?vs" by (simp add: wf_graph_def distinct_map)
  have e: "fst ` set ?es \<union> snd ` set ?es \<subseteq> set ?vs"
    using edges_in_nodes [OF assms(1)] by force
  show "wf_graph (relabel_nodes G f)" unfolding relabel_nodes_def by (rule wf_built [OF d e])
  show "graph_nodes (relabel_nodes G f) = ?vs" unfolding relabel_nodes_def by (rule built_graph(1) [OF d e])
  have m: "(a, b) \<in> set ?es \<longleftrightarrow> (\<exists>x y. (x, y) \<in> set (edges G) \<and> a = f x \<and> b = f y)" for a b
    by force
  show "set (nbrs (relabel_nodes G f) z) = {f y | x y. z = f x \<and> y \<in> set (nbrs G x)}"
    unfolding relabel_nodes_def built_graph(2) [OF d e] m edges_adjacent [OF assms(1), symmetric]
    by blast
qed

section \<open>The hypercube\<close>

lemma cycle_graph_2: "cycle_graph 2 = [(0, [1]), (1, [0])]"
  by code_simp

lemma nodes_cycle_graph_2: "graph_nodes (cycle_graph 2) = [0, 1]"
  by (simp add: cycle_graph_2 graph_nodes_def)

lemma edges_cycle_graph_2: "edges (cycle_graph 2) = [(0, 1)]"
  by (simp add: cycle_graph_2 edges_def)

lemma flatten_nonempty: "flatten x \<noteq> []"
  by (cases x) simp_all

lemma flatten_inj: "flatten x = flatten y \<Longrightarrow> x = y"
proof (induction x arbitrary: y)
  case (Atom k)
  show ?case
  proof (cases y)
    case (Atom k')
    with Atom.prems show ?thesis by simp
  next
    case (Tup u y')
    with Atom.prems have "flatten y' = []" by simp
    with flatten_nonempty show ?thesis by blast
  qed
next
  case (Tup u x)
  show ?case
  proof (cases y)
    case (Atom k')
    with Tup.prems have "flatten x = []" by simp
    with flatten_nonempty show ?thesis by blast
  next
    case (Tup u' y')
    with Tup.prems have "u = u'" "flatten x = flatten y'" by simp_all
    with Tup.IH Tup show ?thesis by simp
  qed
qed

lemma nbrs_nonempty_node: "y \<in> set (nbrs G x) \<Longrightarrow> x \<in> set (graph_nodes G)"
proof (cases "map_of G x")
  case None
  assume "y \<in> set (nbrs G x)"
  with None show ?thesis by (simp add: nbrs_def)
next
  case (Some ns)
  then show ?thesis by (rule map_of_Some_nodes)
qed

lemma product_edges_mem:
  "(p, q) \<in> set (map (\<lambda>x. (Tup 0 x, Tup 1 x)) vs @
             (map (\<lambda>(u, v). (Tup 0 u, Tup 0 v)) es @ map (\<lambda>(u, v). (Tup 1 u, Tup 1 v)) es)) \<longleftrightarrow>
       (\<exists>x. x \<in> set vs \<and> p = Tup 0 x \<and> q = Tup 1 x) \<or>
       (\<exists>u v. (u, v) \<in> set es \<and> p = Tup 0 u \<and> q = Tup 0 v) \<or>
       (\<exists>u v. (u, v) \<in> set es \<and> p = Tup 1 u \<and> q = Tup 1 v)"
proof -
  have 1: "(p, q) \<in> set (map (\<lambda>x. (Tup 0 x, Tup 1 x)) vs) \<longleftrightarrow> (\<exists>x. x \<in> set vs \<and> p = Tup 0 x \<and> q = Tup 1 x)"
    by auto
  have 2: "(p, q) \<in> set (map (\<lambda>(u, v). (Tup b u, Tup b v)) es) \<longleftrightarrow> (\<exists>u v. (u, v) \<in> set es \<and> p = Tup b u \<and> q = Tup b v)"
    for b by (auto simp: image_iff Bex_def)
  show ?thesis unfolding set_append Un_iff 1 2 ..
qed

lemma product_nbrs:
  assumes "\<And>u v. (u, v) \<in> E \<or> (v, u) \<in> E \<longleftrightarrow> v \<in> N u" "x \<in> V" "b < 2"
  shows "{q. ((\<exists>y. y \<in> V \<and> Tup b x = Tup 0 y \<and> q = Tup 1 y) \<or>
              (\<exists>u v. (u, v) \<in> E \<and> Tup b x = Tup 0 u \<and> q = Tup 0 v) \<or>
              (\<exists>u v. (u, v) \<in> E \<and> Tup b x = Tup 1 u \<and> q = Tup 1 v)) \<or>
             ((\<exists>y. y \<in> V \<and> q = Tup 0 y \<and> Tup b x = Tup 1 y) \<or>
              (\<exists>u v. (u, v) \<in> E \<and> q = Tup 0 u \<and> Tup b x = Tup 0 v) \<or>
              (\<exists>u v. (u, v) \<in> E \<and> q = Tup 1 u \<and> Tup b x = Tup 1 v))}
         = insert (Tup (1 - b) x) (Tup b ` N x)"
proof (rule set_eqI)
  fix q
  from assms(3) have b: "b = 0 \<or> b = 1" by linarith
  have "q \<in> insert (Tup (1 - b) x) (Tup b ` N x) \<longleftrightarrow>
          q = Tup (1 - b) x \<or> (\<exists>v. q = Tup b v \<and> ((x, v) \<in> E \<or> (v, x) \<in> E))"
    unfolding assms(1) by auto
  also have "\<dots> \<longleftrightarrow> ((\<exists>y. y \<in> V \<and> Tup b x = Tup 0 y \<and> q = Tup 1 y) \<or>
              (\<exists>u v. (u, v) \<in> E \<and> Tup b x = Tup 0 u \<and> q = Tup 0 v) \<or>
              (\<exists>u v. (u, v) \<in> E \<and> Tup b x = Tup 1 u \<and> q = Tup 1 v)) \<or>
             ((\<exists>y. y \<in> V \<and> q = Tup 0 y \<and> Tup b x = Tup 1 y) \<or>
              (\<exists>u v. (u, v) \<in> E \<and> q = Tup 0 u \<and> Tup b x = Tup 0 v) \<or>
              (\<exists>u v. (u, v) \<in> E \<and> q = Tup 1 u \<and> Tup b x = Tup 1 v))"
    using assms(2) b by auto
  finally show "q \<in> {q. ((\<exists>y. y \<in> V \<and> Tup b x = Tup 0 y \<and> q = Tup 1 y) \<or>
              (\<exists>u v. (u, v) \<in> E \<and> Tup b x = Tup 0 u \<and> q = Tup 0 v) \<or>
              (\<exists>u v. (u, v) \<in> E \<and> Tup b x = Tup 1 u \<and> q = Tup 1 v)) \<or>
             ((\<exists>y. y \<in> V \<and> q = Tup 0 y \<and> Tup b x = Tup 1 y) \<or>
              (\<exists>u v. (u, v) \<in> E \<and> q = Tup 0 u \<and> Tup b x = Tup 0 v) \<or>
              (\<exists>u v. (u, v) \<in> E \<and> q = Tup 1 u \<and> Tup b x = Tup 1 v))} \<longleftrightarrow> q \<in> insert (Tup (1 - b) x) (Tup b ` N x)"
    by simp
qed

lemma endpoints_subset:
  "(\<And>p q. (p, q) \<in> set es \<Longrightarrow> p \<in> V \<and> q \<in> V) \<Longrightarrow> fst ` set es \<union> snd ` set es \<subseteq> V"
  by force

lemma product_built:
  assumes "wf_graph H"
  shows "wf_graph (cartesian_product (cycle_graph 2) H)"
    and "graph_nodes (cartesian_product (cycle_graph 2) H)
           = map (Tup 0) (graph_nodes H) @ map (Tup 1) (graph_nodes H)"
    and "b < 2 \<Longrightarrow> x \<in> set (graph_nodes H) \<Longrightarrow>
         set (nbrs (cartesian_product (cycle_graph 2) H) (Tup b x))
           = insert (Tup (1 - b) x) (Tup b ` set (nbrs H x))"
proof -
  let ?vs = "map (Tup 0) (graph_nodes H) @ map (Tup 1) (graph_nodes H)"
  let ?es = "map (\<lambda>x. (Tup 0 x, Tup 1 x)) (graph_nodes H) @
             (map (\<lambda>(u, v). (Tup 0 u, Tup 0 v)) (edges H) @ map (\<lambda>(u, v). (Tup 1 u, Tup 1 v)) (edges H))"
  have eq: "cartesian_product (cycle_graph 2) H = add_edges_from (add_nodes_from [] ?vs) ?es"
    by (simp add: cartesian_product_def nodes_cycle_graph_2 edges_cycle_graph_2 Let_def
        add_edges_from_append)
  from assms have dH: "distinct (graph_nodes H)" by (simp add: wf_graph_def)
  then have d: "distinct ?vs" by (auto simp add: distinct_map inj_on_def)
  have e: "fst ` set ?es \<union> snd ` set ?es \<subseteq> set ?vs"
  proof (rule endpoints_subset)
    fix p q assume "(p, q) \<in> set ?es"
    then consider x where "x \<in> set (graph_nodes H)" "p = Tup 0 x" "q = Tup 1 x"
      | u v where "(u, v) \<in> set (edges H)" "p = Tup 0 u" "q = Tup 0 v"
      | u v where "(u, v) \<in> set (edges H)" "p = Tup 1 u" "q = Tup 1 v"
      unfolding product_edges_mem by blast
    then show "p \<in> set ?vs \<and> q \<in> set ?vs"
    proof cases
      case 1
      then show ?thesis by simp
    next
      case 2
      with edges_in_nodes [OF assms 2(1)] show ?thesis by simp
    next
      case 3
      with edges_in_nodes [OF assms 3(1)] show ?thesis by simp
    qed
  qed
  show "wf_graph (cartesian_product (cycle_graph 2) H)" unfolding eq by (rule wf_built [OF d e])
  show "graph_nodes (cartesian_product (cycle_graph 2) H) = ?vs" unfolding eq
    by (rule built_graph(1) [OF d e])
  assume b: "b < 2" and x: "x \<in> set (graph_nodes H)"
  show "set (nbrs (cartesian_product (cycle_graph 2) H) (Tup b x))
           = insert (Tup (1 - b) x) (Tup b ` set (nbrs H x))"
    unfolding eq built_graph(2) [OF d e] product_edges_mem
    by (rule product_nbrs [OF edges_adjacent [OF assms] x b])
qed

lemma adjacent_iff: "(x, y) \<in> adjacent G \<longleftrightarrow> y \<in> set (nbrs G x)"
  by (simp add: adjacent_def)

lemma rtrancl_lift:
  assumes "(x, y) \<in> R\<^sup>*" "\<And>x y. (x, y) \<in> R \<Longrightarrow> (f x, f y) \<in> S"
  shows "(f x, f y) \<in> S\<^sup>*"
  using assms(1)
proof (induction rule: rtrancl_induct)
  case base
  show ?case by simp
next
  case (step y z)
  from assms(2) [OF step.hyps(2)] step.IH show ?case by (rule rtrancl_into_rtrancl [rotated])
qed

lemma product_adj_lift:
  assumes "wf_graph H" "b < 2" "(x, y) \<in> adjacent H"
  shows "(Tup b x, Tup b y) \<in> adjacent (cartesian_product (cycle_graph 2) H)"
proof -
  from assms(3) have y: "y \<in> set (nbrs H x)" by (simp add: adjacent_iff)
  from nbrs_nonempty_node [OF y] have x: "x \<in> set (graph_nodes H)" .
  show ?thesis unfolding adjacent_iff product_built(3) [OF assms(1,2) x] using y by simp
qed

lemma product_adj_cross:
  assumes "wf_graph H" "x \<in> set (graph_nodes H)"
  shows "(Tup 1 x, Tup 0 x) \<in> adjacent (cartesian_product (cycle_graph 2) H)"
proof -
  have "(1::nat) < 2" by simp
  from product_built(3) [OF assms(1) this assms(2)] show ?thesis unfolding adjacent_iff by simp
qed

lemma wf_sym: "wf_graph G \<Longrightarrow> sym (adjacent G)"
  by (simp add: wf_graph_def)

lemma wf_distinct_nbrs: "wf_graph G \<Longrightarrow> distinct (nbrs G x)"
  by (simp add: wf_graph_def)

lemma product_cube_inv:
  assumes "cube_inv d H"
  shows "cube_inv (Suc d) (cartesian_product (cycle_graph 2) H)"
proof -
  let ?GH = "cartesian_product (cycle_graph 2) H"
  from assms have wf: "wf_graph H" and len: "length (graph_nodes H) = 2 ^ d"
    and deg: "\<And>x. x \<in> set (graph_nodes H) \<Longrightarrow> degree H x = d"
    and con: "connected H" by (simp_all add: cube_inv_def)
  note pb = product_built [OF wf]
  have nodes: "z \<in> set (graph_nodes ?GH) \<longleftrightarrow> (\<exists>b x. b < 2 \<and> x \<in> set (graph_nodes H) \<and> z = Tup b x)" for z
  proof
    assume "z \<in> set (graph_nodes ?GH)"
    then have "z \<in> Tup 0 ` set (graph_nodes H) \<or> z \<in> Tup 1 ` set (graph_nodes H)"
      unfolding pb(2) by simp
    then show "\<exists>b x. b < 2 \<and> x \<in> set (graph_nodes H) \<and> z = Tup b x"
    proof
      assume "z \<in> Tup 0 ` set (graph_nodes H)"
      then obtain x where "x \<in> set (graph_nodes H)" "z = Tup 0 x" by blast
      then show ?thesis by (intro exI [of _ 0] exI [of _ x]) simp
    next
      assume "z \<in> Tup 1 ` set (graph_nodes H)"
      then obtain x where "x \<in> set (graph_nodes H)" "z = Tup 1 x" by blast
      then show ?thesis by (intro exI [of _ 1] exI [of _ x]) simp
    qed
  next
    assume "\<exists>b x. b < 2 \<and> x \<in> set (graph_nodes H) \<and> z = Tup b x"
    then obtain b x where b: "b < 2" and x: "x \<in> set (graph_nodes H)" and z: "z = Tup b x" by blast
    from b have "b = 0 \<or> b = 1" by linarith
    with x z show "z \<in> set (graph_nodes ?GH)" unfolding pb(2) by auto
  qed
  have 1: "length (graph_nodes ?GH) = 2 ^ Suc d" unfolding pb(2) using len by simp
  have 2: "degree ?GH z = Suc d" if "z \<in> set (graph_nodes ?GH)" for z
  proof -
    from that obtain b x where b: "b < 2" and x: "x \<in> set (graph_nodes H)" and z: "z = Tup b x"
      unfolding nodes by blast
    from b have nb: "1 - b \<noteq> b" by arith
    have "card (Tup b ` set (nbrs H x)) = card (set (nbrs H x))"
      by (rule card_image) (simp add: inj_on_def)
    also have "\<dots> = d" using deg [OF x] degree_card [OF wf_distinct_nbrs [OF wf]] by simp
    finally have c: "card (Tup b ` set (nbrs H x)) = d" .
    have "Tup (1 - b) x \<notin> Tup b ` set (nbrs H x)" using nb by auto
    then have "card (insert (Tup (1 - b) x) (Tup b ` set (nbrs H x))) = Suc d"
      using c by simp
    then show ?thesis
      unfolding z degree_card [OF wf_distinct_nbrs [OF pb(1)]] pb(3) [OF b x] .
  qed
  have 3: "connected ?GH"
  proof -
    from len have "graph_nodes H \<noteq> []" by auto
    then obtain c where c: "c \<in> set (graph_nodes H)" by (cases "graph_nodes H") auto
    show ?thesis
    proof (rule connected_via [OF wf_sym [OF pb(1)], where c = "Tup 0 c"])
      fix z assume "z \<in> set (graph_nodes ?GH)"
      then obtain b x where b: "b < 2" and x: "x \<in> set (graph_nodes H)" and z: "z = Tup b x"
        unfolding nodes by blast
      from con x c have "(x, c) \<in> (adjacent H)\<^sup>*" by (simp add: connected_def)
      then have r: "(Tup b x, Tup b c) \<in> (adjacent ?GH)\<^sup>*"
        using product_adj_lift [OF wf b] by (rule rtrancl_lift)
      from b have "b = 0 \<or> b = 1" by linarith
      then show "(z, Tup 0 c) \<in> (adjacent ?GH)\<^sup>*"
      proof
        assume "b = 0"
        with r z show ?thesis by simp
      next
        assume "b = 1"
        with r z product_adj_cross [OF wf c] show ?thesis by (simp add: rtrancl_into_rtrancl)
      qed
    qed
  qed
  from pb(1) 1 2 3 show ?thesis unfolding cube_inv_def by blast
qed

lemma relabel_cube_inv:
  assumes "cube_inv d G" "inj f"
  shows "cube_inv d (relabel_nodes G f)"
proof -
  let ?G' = "relabel_nodes G f"
  from assms have wf: "wf_graph G" and len: "length (graph_nodes G) = 2 ^ d"
    and deg: "\<And>x. x \<in> set (graph_nodes G) \<Longrightarrow> degree G x = d"
    and con: "connected G" by (simp_all add: cube_inv_def)
  from assms(2) have "inj_on f (set (graph_nodes G))" by (rule inj_on_subset) simp
  note rl = relabel_wf [OF wf this]
  have nb: "set (nbrs ?G' (f x)) = f ` set (nbrs G x)" for x
    unfolding rl(3) using assms(2) by (auto dest: injD)
  have 1: "length (graph_nodes ?G') = 2 ^ d" unfolding rl(2) using len by simp
  have 2: "degree ?G' z = d" if "z \<in> set (graph_nodes ?G')" for z
  proof -
    from that obtain x where x: "x \<in> set (graph_nodes G)" and z: "z = f x" unfolding rl(2) by auto
    have "card (f ` set (nbrs G x)) = card (set (nbrs G x))"
      by (rule card_image) (rule inj_on_subset [OF assms(2)], simp)
    also have "\<dots> = d" using deg [OF x] degree_card [OF wf_distinct_nbrs [OF wf]] by simp
    finally show ?thesis unfolding z degree_card [OF wf_distinct_nbrs [OF rl(1)]] nb .
  qed
  have lift: "(f x, f y) \<in> adjacent ?G'" if "(x, y) \<in> adjacent G" for x y
    using that unfolding adjacent_iff nb by simp
  have 3: "connected ?G'" unfolding connected_def
  proof (intro ballI)
    fix u v assume "u \<in> set (graph_nodes ?G')" "v \<in> set (graph_nodes ?G')"
    then obtain x y where x: "x \<in> set (graph_nodes G)" "u = f x" and y: "y \<in> set (graph_nodes G)" "v = f y"
      unfolding rl(2) by auto
    from con x(1) y(1) have "(x, y) \<in> (adjacent G)\<^sup>*" by (simp add: connected_def)
    then have "(f x, f y) \<in> (adjacent ?G')\<^sup>*"
      using lift by (rule rtrancl_lift)
    then show "(u, v) \<in> (adjacent ?G')\<^sup>*" unfolding x(2) y(2) .
  qed
  from rl(1) 1 2 3 show ?thesis unfolding cube_inv_def by blast
qed

lemma atoms_cycle_graph_2:
  "atoms (cycle_graph 2) = add_edges_from (add_nodes_from [] [Atom 0, Atom 1]) [(Atom 0, Atom 1)]"
  by code_simp

lemma base_cube_inv: "cube_inv 1 (atoms (cycle_graph 2))"
proof -
  let ?G = "add_edges_from (add_nodes_from [] [Atom 0, Atom 1]) [(Atom 0, Atom 1)]"
  have d: "distinct [Atom 0, Atom 1]" by simp
  have e: "fst ` set [(Atom 0, Atom 1)] \<union> snd ` set [(Atom 0, Atom 1)] \<subseteq> set [Atom 0, Atom 1]" by simp
  note b = built_graph [OF d e]
  have wf: "wf_graph ?G" by (rule wf_built [OF d e])
  have n0: "set (nbrs ?G (Atom 0)) = {Atom 1}" unfolding b(2) by auto
  have n1: "set (nbrs ?G (Atom 1)) = {Atom 0}" unfolding b(2) by auto
  have 1: "length (graph_nodes ?G) = 2 ^ 1" unfolding b(1) by simp
  have 2: "degree ?G z = 1" if "z \<in> set (graph_nodes ?G)" for z
  proof -
    from that have "z = Atom 0 \<or> z = Atom 1" unfolding b(1) by simp
    then show ?thesis using n0 n1 unfolding degree_card [OF b(3)] by auto
  qed
  have 3: "connected ?G"
  proof (rule connected_via [OF wf_sym [OF wf], where c = "Atom 0"])
    fix z assume "z \<in> set (graph_nodes ?G)"
    then have "z = Atom 0 \<or> z = Atom 1" unfolding b(1) by simp
    then show "(z, Atom 0) \<in> (adjacent ?G)\<^sup>*"
    proof
      assume "z = Atom 0" then show ?thesis by simp
    next
      assume "z = Atom 1"
      moreover have "(Atom 1, Atom 0) \<in> adjacent ?G" unfolding adjacent_iff n1 by simp
      ultimately show ?thesis by simp
    qed
  qed
  from wf 1 2 3 show ?thesis unfolding atoms_cycle_graph_2 cube_inv_def by blast
qed

lemma loop_cube_inv:
  "cube_inv d G \<Longrightarrow> cube_inv (d + k) (grid_graph_loop (replicate k 2) G)"
proof (induction k arbitrary: d G)
  case 0
  then show ?case by simp
next
  case (Suc k)
  from Suc.IH [OF product_cube_inv [OF Suc.prems]] show ?case by simp
qed

lemma hypercube_cube_inv:
  assumes "0 < n"
  shows "cube_inv n (hypercube_graph n)"
proof -
  from assms obtain k where n: "n = Suc k" by (cases n) auto
  have "cube_inv (1 + k) (grid_graph_loop (replicate k 2) (atoms (cycle_graph 2)))"
    by (rule loop_cube_inv [OF base_cube_inv])
  then have "cube_inv n (relabel_nodes (grid_graph_loop (replicate k 2) (atoms (cycle_graph 2))) flatten)"
    unfolding n by (intro relabel_cube_inv) (simp_all add: inj_on_def flatten_inj)
  then show ?thesis by (simp add: hypercube_graph_def grid_graph_periodic_def n)
qed

section \<open>The generated topologies\<close>

lemma grid_wf: "wf_graph (grid_2d_graph n n periodic)"
  unfolding grid_2d_graph_built by (rule wf_built [OF distinct_grid_nodes grid_edges_in_nodes])

text \<open>
  The three topologies are well-formed graphs.
\<close>

lemma topology_wf: "0 < n \<Longrightarrow> wf_graph (generate_topology topology n)"
  using hypercube_cube_inv [of n]
  by (simp add: generate_topology_def grid_wf cube_inv_def)

lemma topology_node_count:
  "0 < n \<Longrightarrow> length (graph_nodes (generate_topology topology n)) = (if topology = Hypercube then 2 ^ n else n * n)"
  using hypercube_cube_inv [of n]
  by (cases topology) (simp_all add: generate_topology_def grid_nodes_eq length_grid_nodes cube_inv_def)

lemma topology_connected: "0 < n \<Longrightarrow> connected (generate_topology topology n)"
  using hypercube_cube_inv [of n]
  by (simp add: generate_topology_def grid_connected cube_inv_def)

lemma mesh_degree_corner:
  assumes "2 \<le> n" "i = 0 \<or> i = n - 1" "j = 0 \<or> j = n - 1"
  shows "degree (generate_topology Mesh n) [i, j] = 2"
proof -
  from assms have ij: "i < n" "j < n" by auto
  from assms have "(if 0 < i then 1 else 0) + (if Suc i < n then 1 else 0) = (1::nat)"
    "(if 0 < j then 1 else 0) + (if Suc j < n then 1 else 0) = (1::nat)" by auto
  then show ?thesis unfolding generate_topology_def using mesh_degree [OF ij] by simp
qed

lemma mesh_degree_interior:
  assumes "0 < i" "i < n - 1" "0 < j" "j < n - 1"
  shows "degree (generate_topology Mesh n) [i, j] = 4"
proof -
  from assms have ij: "i < n" "j < n" by auto
  from assms have "(if 0 < i then 1 else 0) + (if Suc i < n then 1 else 0) = (2::nat)"
    "(if 0 < j then 1 else 0) + (if Suc j < n then 1 else 0) = (2::nat)" by auto
  then show ?thesis unfolding generate_topology_def using mesh_degree [OF ij] by simp
qed

lemma torus_degree_nodes:
  assumes "2 \<le> n" "v \<in> set (graph_nodes (generate_topology Torus n))"
  shows "degree (generate_topology Torus n) v = (if n = 2 then 2 else 4)"
proof -
  from assms(2) obtain i j where v: "v = [i, j]" and ij: "i < n" "j < n"
    by (auto simp: generate_topology_def grid_nodes_eq set_grid_nodes)
  show ?thesis
  proof (cases "n = 2")
    case True
    with ij have c: "i = 0 \<or> i = n - 1" "j = 0 \<or> j = n - 1" by auto
    from mesh_degree_corner [OF assms(1) c] True show ?thesis
      unfolding v by (simp add: generate_topology_def torus2_is_mesh2)
  next
    case False
    with assms(1) have "2 < n" by simp
    from torus_degree [OF ij this] False show ?thesis unfolding v by (simp add: generate_topology_def)
  qed
qed

lemma hypercube_degree_nodes:
  assumes "0 < n" "v \<in> set (graph_nodes (generate_topology Hypercube n))"
  shows "degree (generate_topology Hypercube n) v = n"
  using hypercube_cube_inv [OF assms(1)] assms(2)
  by (simp add: generate_topology_def cube_inv_def)

text \<open>
  Claim C1, as the code has it. For every \<open>n \<ge> 2\<close> the generated graph is connected;
  a corner node of the mesh has degree 2 and an interior node degree 4 (in general one
  neighbour for each of the four directions that stays on the grid); every node of the
  hypercube has degree \<open>n\<close>; every node of the torus has degree 4 when \<open>n \<ge> 3\<close>, and
  degree 2 when \<open>n = 2\<close>, where networkx adds no wrap-around edge and the torus is the
  2 x 2 mesh.
\<close>

theorem topology_connected_and_degrees:
  assumes "2 \<le> n"
  shows "connected (generate_topology topology n) \<and>
         (\<forall>i j. (i = 0 \<or> i = n - 1) \<and> (j = 0 \<or> j = n - 1) \<longrightarrow>
            degree (generate_topology Mesh n) [i, j] = 2) \<and>
         (\<forall>i j. 0 < i \<and> i < n - 1 \<and> 0 < j \<and> j < n - 1 \<longrightarrow>
            degree (generate_topology Mesh n) [i, j] = 4) \<and>
         (\<forall>i j. i < n \<and> j < n \<longrightarrow>
            degree (generate_topology Mesh n) [i, j] =
              (if 0 < i then 1 else 0) + (if Suc i < n then 1 else 0) +
              (if 0 < j then 1 else 0) + (if Suc j < n then 1 else 0)) \<and>
         (\<forall>v \<in> set (graph_nodes (generate_topology Torus n)).
            degree (generate_topology Torus n) v = (if n = 2 then 2 else 4)) \<and>
         (\<forall>v \<in> set (graph_nodes (generate_topology Hypercube n)).
            degree (generate_topology Hypercube n) v = n)"
proof -
  from assms have n: "0 < n" by simp
  have 1: "connected (generate_topology topology n)" by (rule topology_connected [OF n])
  have 2: "\<forall>i j. (i = 0 \<or> i = n - 1) \<and> (j = 0 \<or> j = n - 1) \<longrightarrow>
            degree (generate_topology Mesh n) [i, j] = 2"
    using mesh_degree_corner [OF assms] by blast
  have 3: "\<forall>i j. 0 < i \<and> i < n - 1 \<and> 0 < j \<and> j < n - 1 \<longrightarrow>
            degree (generate_topology Mesh n) [i, j] = 4"
    using mesh_degree_interior by blast
  have 6: "\<forall>i j. i < n \<and> j < n \<longrightarrow>
            degree (generate_topology Mesh n) [i, j] =
              (if 0 < i then 1 else 0) + (if Suc i < n then 1 else 0) +
              (if 0 < j then 1 else 0) + (if Suc j < n then 1 else 0)"
    using mesh_degree by (simp add: generate_topology_def)
  have 4: "\<forall>v \<in> set (graph_nodes (generate_topology Torus n)).
            degree (generate_topology Torus n) v = (if n = 2 then 2 else 4)"
    using torus_degree_nodes [OF assms] by blast
  have 5: "\<forall>v \<in> set (graph_nodes (generate_topology Hypercube n)).
            degree (generate_topology Hypercube n) v = n"
    using hypercube_degree_nodes [OF n] by blast
  from 1 2 3 6 4 5 show ?thesis by (intro conjI)
qed

text \<open>
  Claim C1 as stated fails for the torus with \<open>n = 2\<close>: the node (0,0) has two
  neighbours, not four.
\<close>

theorem torus2_degree_counterexample:
  "[0, 0] \<in> set (graph_nodes (generate_topology Torus 2)) \<and>
   degree (generate_topology Torus 2) [0, 0] = 2 \<and>
   degree (generate_topology Torus 2) [0, 0] \<noteq> 4"
  by code_simp

text \<open>
  The graphs for \<open>n = 3\<close>: a corner and the centre of the mesh, a node of the torus,
  a node of the hypercube.
\<close>

theorem topology_connected_and_degrees_witness:
  "(2::nat) \<le> 3 \<and> connected (generate_topology Torus 3) \<and>
   degree (generate_topology Mesh 3) [0, 2] = 2 \<and>
   degree (generate_topology Mesh 3) [1, 1] = 4 \<and>
   degree (generate_topology Mesh 3) [1, 0] = 3 \<and>
   [2, 0] \<in> set (graph_nodes (generate_topology Torus 3)) \<and>
   degree (generate_topology Torus 3) [2, 0] = 4 \<and>
   [1, 0, 1] \<in> set (graph_nodes (generate_topology Hypercube 3)) \<and>
   degree (generate_topology Hypercube 3) [1, 0, 1] = 3"
proof -
  have h: "(2::nat) \<le> 3" by simp
  have t: "[2, 0] \<in> set (graph_nodes (generate_topology Torus 3))" by code_simp
  have c: "[1, 0, 1] \<in> set (graph_nodes (generate_topology Hypercube 3))" by code_simp
  note a = topology_connected_and_degrees [OF h, of Torus]
  from a have 1: "connected (generate_topology Torus 3)" by (rule conjunct1)
  from a have 2: "degree (generate_topology Mesh 3) [0, 2] = 2" by simp
  from a have 3: "degree (generate_topology Mesh 3) [1, 1] = 4" by simp
  from a have 6: "degree (generate_topology Mesh 3) [1, 0] = 3" by simp
  from a t have 4: "degree (generate_topology Torus 3) [2, 0] = 4" by simp
  from a c have 5: "degree (generate_topology Hypercube 3) [1, 0, 1] = 3" by simp
  from h 1 2 3 6 t 4 c 5 show ?thesis by (intro conjI)
qed

section \<open>The run returns\<close>

lemma wf_neighbors_closed:
  assumes "wf_graph G" "neighbors G x = Inr ns"
  shows "set ns \<subseteq> set (graph_nodes G)"
proof -
  from neighbors_Inr_nbrs [OF assms(2)] have "ns = nbrs G x" by simp
  with assms(1) show ?thesis by (simp add: wf_graph_def)
qed

lemma pstep_in_graph:
  assumes "pstep G p p'" "wf_graph G" "current p \<in> set (graph_nodes G)"
  shows "current p' \<in> set (graph_nodes G)"
  using assms
proof (induction rule: pstep.induct)
  case (hop p ns h)
  from wf_neighbors_closed [OF hop.prems(1) hop.hyps(3)] hop.hyps(4) show ?case by auto
qed simp_all

lemma adaptive_next_hop_total:
  assumes "i < length ps" "current (ps ! i) \<in> set (graph_nodes G)"
  shows "\<exists>h ps'. adaptive_next_hop G ps i = Inr (h, ps')"
proof -
  from neighbors_nbrs [OF assms(2)] have n: "neighbors G (current (ps ! i)) = Inr (nbrs G (current (ps ! i)))" .
  show ?thesis
  proof (cases "filter (\<lambda>n. n \<notin> set (path (ps ! i))) (nbrs G (current (ps ! i))) = []")
    case True
    with n show ?thesis by (simp add: adaptive_next_hop_def Let_def)
  next
    case False
    from min_key_nonempty [OF False, of "congestion ps"] n False show ?thesis
      by (auto simp: adaptive_next_hop_def Let_def)
  qed
qed

lemma move_packet_total:
  assumes "i < length ps" "current (ps ! i) \<in> set (graph_nodes G)"
  shows "\<exists>ps'. move_packet G ps i = Inr ps'"
  using adaptive_next_hop_total [OF assms]
  by (auto simp: move_packet_def Let_def)

lemma move_packet_in_graph:
  assumes "wf_graph G" "in_graph G ps" "i < length ps" "move_packet G ps i = Inr ps'"
  shows "in_graph G ps'"
  unfolding in_graph_def
proof (intro allI impI)
  note s = move_packet_pstep [OF assms(3,4)]
  fix j assume "j < length ps'"
  with s have j: "j < length ps" by simp
  show "current (ps' ! j) \<in> set (graph_nodes G)"
  proof (cases "j = i")
    case True
    from s have "pstep G (ps ! i) (ps' ! i)" by simp
    from pstep_in_graph [OF this assms(1)] assms(2,3) True show ?thesis by (simp add: in_graph_def)
  next
    case False
    with s have "ps' ! j = ps ! j" by simp
    with assms(2) j show ?thesis by (simp add: in_graph_def)
  qed
qed

lemma move_from_total:
  assumes "wf_graph G"
  shows "in_graph G ps \<Longrightarrow> \<forall>i \<in> set is. i < length ps \<Longrightarrow>
         \<exists>ps'. move_from G is ps = Inr ps' \<and> in_graph G ps' \<and> length ps' = length ps"
proof (induction "is" arbitrary: ps)
  case Nil
  then show ?case by simp
next
  case (Cons i "is")
  from Cons.prems have i: "i < length ps" by simp
  with Cons.prems(1) have "current (ps ! i) \<in> set (graph_nodes G)" by (simp add: in_graph_def)
  from move_packet_total [OF i this] obtain ps1 where m: "move_packet G ps i = Inr ps1" by blast
  from move_packet_pstep [OF i m] have l: "length ps1 = length ps" by simp
  from move_packet_in_graph [OF assms Cons.prems(1) i m] have g: "in_graph G ps1" .
  from Cons.prems(2) l have "\<forall>i \<in> set is. i < length ps1" by simp
  from Cons.IH [OF g this] m l show ?case by auto
qed

lemma move_packets_total:
  assumes "wf_graph G" "in_graph G ps"
  shows "\<exists>ps'. move_packets G ps = Inr ps' \<and> in_graph G ps' \<and> length ps' = length ps"
  unfolding move_packets_def using move_from_total [OF assms, of "[0..<length ps]"] by simp

lemma run_steps_total:
  assumes "wf_graph G"
  shows "in_graph G ps \<Longrightarrow> \<exists>ps'. run_steps G k ps = Inr ps' \<and> in_graph G ps' \<and> length ps' = length ps"
proof (induction k arbitrary: ps)
  case 0
  then show ?case by simp
next
  case (Suc k)
  from move_packets_total [OF assms Suc.prems] obtain ps1
    where m: "move_packets G ps = Inr ps1" "in_graph G ps1" "length ps1 = length ps" by blast
  from Suc.IH [OF m(2)] m(1,3) show ?case by auto
qed

lemma simulation_loop_run_steps:
  "run_steps G k ps = Inr ps' \<Longrightarrow>
   \<exists>frames'. simulation_loop G k ps frames = Inr (ps', frames') \<and> length frames' = length frames + k"
proof (induction k arbitrary: ps frames)
  case 0
  then show ?case by simp
next
  case (Suc k)
  from Suc.prems obtain ps1 where m: "move_packets G ps = Inr ps1" and r: "run_steps G k ps1 = Inr ps'"
    by (auto split: sum.splits)
  from Suc.IH [OF r, of "frames @ [node_colors G ps]"] m show ?case by auto
qed

lemma create_packets_total:
  assumes "2 \<le> length (graph_nodes G)"
  shows "\<exists>ps. create_packets G draws acc = Inr ps \<and> length ps = length acc + length draws"
proof (induction draws arbitrary: acc)
  case Nil
  show ?case by simp
next
  case (Cons r rs)
  from assms obtain s d where sd: "random_sample2 (graph_nodes G) r = Inr (s, d)"
    by (auto simp: random_sample2_def Let_def)
  from Cons [of "acc @ [Packet s d]"] sd show ?case by auto
qed

lemma create_packets_in_graph:
  assumes "create_packets G draws [] = Inr ps"
  shows "in_graph G ps"
  unfolding in_graph_def
proof (intro allI impI)
  fix i assume "i < length ps"
  then have "ps ! i \<in> set ps" by simp
  with create_packets_init [OF assms] obtain s d where "ps ! i = Packet s d" "s \<in> set (graph_nodes G)"
    by fastforce
  then show "current (ps ! i) \<in> set (graph_nodes G)" by (simp add: Packet_def)
qed

lemma topology_two_nodes:
  assumes "2 \<le> n"
  shows "2 \<le> length (graph_nodes (generate_topology topology n))"
proof -
  from assms have n: "0 < n" by simp
  have "2 \<le> n * n" using assms by (metis mult_le_mono1 mult_2 le_trans le_add1 le_refl nat_le_linear add_leD1)
  moreover have "(2::nat) \<le> 2 ^ n" using n by (cases n) simp_all
  ultimately show ?thesis unfolding topology_node_count [OF n] by simp
qed

lemma app_run:
  assumes "2 \<le> n"
  shows "\<exists>ps0 ps frames.
           create_packets (generate_topology topology n) draws [] = Inr ps0 \<and>
           run_steps (generate_topology topology n) (max_steps n) ps0 = Inr ps \<and>
           length frames = max_steps n \<and>
           app topology n draws = Inr \<lparr>final_packets = ps, frames_drawn = frames, report = summary ps\<rparr>"
proof -
  let ?G = "generate_topology topology n"
  from assms have wf: "wf_graph ?G" by (intro topology_wf) simp
  from create_packets_total [OF topology_two_nodes [OF assms], of topology draws "[]"]
  obtain ps0 where c: "create_packets ?G draws [] = Inr ps0" by blast
  from run_steps_total [OF wf create_packets_in_graph [OF c], of "max_steps n"]
  obtain ps where r: "run_steps ?G (max_steps n) ps0 = Inr ps" by blast
  from simulation_loop_run_steps [OF r, of "[]"]
  obtain frames where s: "simulation_loop ?G (max_steps n) ps0 [] = Inr (ps, frames)"
    and l: "length frames = max_steps n" by auto
  from c s have "app topology n draws = Inr \<lparr>final_packets = ps, frames_drawn = frames, report = summary ps\<rparr>"
    by (simp add: app_def)
  with c r l show ?thesis by blast
qed

text \<open>
  Claim C3. For every topology, every \<open>n \<ge> 2\<close> and every list of random draws the
  script returns, and it has drawn exactly \<open>n * n * 2\<close> frames, one per iteration of the
  loop: the number of iterations depends on neither the topology nor the packets, and a
  run whose packets are all completed still goes through every iteration.
\<close>

theorem loop_runs_max_steps:
  assumes "2 \<le> n"
  shows "\<exists>r. app topology n draws = Inr r \<and> length (frames_drawn r) = n * n * 2"
proof -
  from app_run [OF assms, of topology draws] obtain ps frames
    where "length frames = max_steps n"
      "app topology n draws = Inr \<lparr>final_packets = ps, frames_drawn = frames, report = summary ps\<rparr>"
    by blast
  then show ?thesis by (simp add: max_steps_def)
qed

text \<open>
  Claim C7. For \<open>n \<ge> 2\<close> the population that \<^verbatim>\<open>random.sample\<close> draws from has
  at least two nodes, the whole script returns a result rather than an error (a
  \<^verbatim>\<open>min\<close> of an empty list, a neighbour lookup outside the graph and a sample from
  too small a population are the errors of the model), and after any number of
  iterations the router returns a hop for every packet.
\<close>

theorem no_runtime_errors:
  assumes "2 \<le> n"
  shows "2 \<le> length (graph_nodes (generate_topology topology n)) \<and>
         (\<exists>r. app topology n draws = Inr r) \<and>
         (\<exists>ps0. create_packets (generate_topology topology n) draws [] = Inr ps0 \<and>
            (\<forall>k. \<exists>ps. run_steps (generate_topology topology n) k ps0 = Inr ps \<and>
               (\<forall>i < length ps. \<exists>h ps'. adaptive_next_hop (generate_topology topology n) ps i = Inr (h, ps'))))"
proof -
  let ?G = "generate_topology topology n"
  from assms have wf: "wf_graph ?G" by (intro topology_wf) simp
  have 1: "2 \<le> length (graph_nodes ?G)" by (rule topology_two_nodes [OF assms])
  from app_run [OF assms, of topology draws] obtain ps0 where c: "create_packets ?G draws [] = Inr ps0"
    and 2: "\<exists>r. app topology n draws = Inr r" by blast
  have "\<exists>ps. run_steps ?G k ps0 = Inr ps \<and>
          (\<forall>i < length ps. \<exists>h ps'. adaptive_next_hop ?G ps i = Inr (h, ps'))" for k
  proof -
    from run_steps_total [OF wf create_packets_in_graph [OF c], of k]
    obtain ps where r: "run_steps ?G k ps0 = Inr ps" and g: "in_graph ?G ps" by blast
    from g have "\<forall>i < length ps. \<exists>h ps'. adaptive_next_hop ?G ps i = Inr (h, ps')"
      using adaptive_next_hop_total [of _ ps ?G] by (simp add: in_graph_def)
    with r show ?thesis by blast
  qed
  with c have 3: "\<exists>ps0. create_packets ?G draws [] = Inr ps0 \<and>
            (\<forall>k. \<exists>ps. run_steps ?G k ps0 = Inr ps \<and>
               (\<forall>i < length ps. \<exists>h ps'. adaptive_next_hop ?G ps i = Inr (h, ps')))" by blast
  from 1 2 3 show ?thesis by (intro conjI)
qed

text \<open>
  The hypercube with \<open>n = 3\<close> has 8 nodes; its only packet is completed after six
  iterations, and the loop still runs 18.
\<close>

theorem loop_runs_max_steps_witness:
  "(2::nat) \<le> 3 \<and>
   length (graph_nodes (generate_topology Hypercube 3)) = 8 \<and>
   run_steps (generate_topology Hypercube 3) 6 [Packet [0, 0, 0] [0, 0, 1]]
     = Inr [\<lparr>src = [0, 0, 0], dst = [0, 0, 1], current = [0, 0, 1],
             path = [[0, 0, 0], [1, 0, 0], [1, 1, 0], [0, 1, 0], [0, 1, 1], [0, 0, 1]],
             completed = True, blocked_steps = 0\<rparr>] \<and>
   map_sum id (\<lambda>r. length (frames_drawn r)) (app Hypercube 3 [(0, 0)]) = Inr 18 \<and>
   (\<exists>r. app Hypercube 3 [(0, 0)] = Inr r \<and> length (frames_drawn r) = 3 * 3 * 2)"
proof -
  have h: "(2::nat) \<le> 3" by simp
  have 1: "length (graph_nodes (generate_topology Hypercube 3)) = 8" by code_simp
  have 2: "run_steps (generate_topology Hypercube 3) 6 [Packet [0, 0, 0] [0, 0, 1]]
     = Inr [\<lparr>src = [0, 0, 0], dst = [0, 0, 1], current = [0, 0, 1],
             path = [[0, 0, 0], [1, 0, 0], [1, 1, 0], [0, 1, 0], [0, 1, 1], [0, 0, 1]],
             completed = True, blocked_steps = 0\<rparr>]" by code_simp
  have 3: "map_sum id (\<lambda>r. length (frames_drawn r)) (app Hypercube 3 [(0, 0)]) = Inr 18" by code_simp
  note 4 = loop_runs_max_steps [OF h, of Hypercube "[(0, 0)]"]
  from h 1 2 3 4 show ?thesis by (intro conjI)
qed

text \<open>
  The torus with \<open>n = 2\<close> and two packets, from (0,0) to (1,1) and back.
\<close>

theorem no_runtime_errors_witness:
  "(2::nat) \<le> 2 \<and>
   length (graph_nodes (generate_topology Torus 2)) = 4 \<and>
   map_sum id report (app Torus 2 [(0, 2), (3, 0)])
     = Inr [(1, [[0, 0], [1, 0], [1, 1]], ''Completed''), (2, [[1, 1], [0, 1], [0, 0]], ''Completed'')] \<and>
   (\<exists>r. app Torus 2 [(0, 2), (3, 0)] = Inr r) \<and>
   (\<exists>ps0. create_packets (generate_topology Torus 2) [(0, 2), (3, 0)] [] = Inr ps0 \<and>
      (\<forall>k. \<exists>ps. run_steps (generate_topology Torus 2) k ps0 = Inr ps \<and>
         (\<forall>i < length ps. \<exists>h ps'. adaptive_next_hop (generate_topology Torus 2) ps i = Inr (h, ps'))))"
proof -
  have h: "(2::nat) \<le> 2" by simp
  have 1: "length (graph_nodes (generate_topology Torus 2)) = 4" by code_simp
  have 2: "map_sum id report (app Torus 2 [(0, 2), (3, 0)])
     = Inr [(1, [[0, 0], [1, 0], [1, 1]], ''Completed''), (2, [[1, 1], [0, 1], [0, 0]], ''Completed'')]"
    by code_simp
  note a = no_runtime_errors [OF h, of Torus "[(0, 2), (3, 0)]"]
  from a have 3: "\<exists>r. app Torus 2 [(0, 2), (3, 0)] = Inr r" by blast
  from a have 4: "\<exists>ps0. create_packets (generate_topology Torus 2) [(0, 2), (3, 0)] [] = Inr ps0 \<and>
      (\<forall>k. \<exists>ps. run_steps (generate_topology Torus 2) k ps0 = Inr ps \<and>
         (\<forall>i < length ps. \<exists>h ps'. adaptive_next_hop (generate_topology Torus 2) ps i = Inr (h, ps')))"
    by (elim conjE)
  from h 1 2 3 4 show ?thesis by (intro conjI)
qed

section \<open>Arrival and completion\<close>

lemma on_time_Packet: "s \<in> set (graph_nodes G) \<Longrightarrow> on_time G 0 (Packet s d)"
  by (simp add: on_time_def Packet_def)

lemma pstep_on_time:
  assumes "pstep G p p'" "wf_graph G" "on_time G k p"
  shows "on_time G (Suc k) p'"
  using assms
proof (induction rule: pstep.induct)
  case (skip p)
  then show ?case by (simp add: on_time_def)
next
  case (arrive p)
  then show ?case by (simp add: on_time_def)
next
  case (blocked p ns)
  let ?p' = "p\<lparr>blocked_steps := Suc (blocked_steps p), path := path p @ [current p]\<rparr>"
  have a: "current ?p' \<noteq> dst ?p'" using blocked.hyps(2) by simp
  have b: "neighbors G (current ?p') = Inr ns" using blocked.hyps(3) by simp
  have c: "filter (\<lambda>n. n \<notin> set (path ?p')) ns = []"
    using blocked.hyps(4) by (auto simp: filter_empty_conv)
  from a b c show ?case unfolding on_time_def by blast
next
  case (hop p ns h)
  from hop.hyps(4) have h: "h \<in> set ns" "h \<notin> set (path p)" by auto
  have "\<not> (\<exists>ns'. neighbors G (current p) = Inr ns' \<and> filter (\<lambda>n. n \<notin> set (path p)) ns' = [])"
  proof
    assume "\<exists>ns'. neighbors G (current p) = Inr ns' \<and> filter (\<lambda>n. n \<notin> set (path p)) ns' = []"
    with hop.hyps(3) have "filter (\<lambda>n. n \<notin> set (path p)) ns = []" by auto
    with hop.hyps(4) show False by simp
  qed
  with hop.prems(2) hop.hyps(1) have m: "distinct (path p)" "length (path p) = Suc k"
    "set (path p) \<subseteq> set (graph_nodes G)" unfolding on_time_def by auto
  from wf_neighbors_closed [OF hop.prems(1) hop.hyps(3)] h(1) have hg: "h \<in> set (graph_nodes G)" by auto
  let ?p' = "p\<lparr>current := h, path := path p @ [h]\<rparr>"
  have "distinct (path ?p')" "length (path ?p') = Suc (Suc k)" "set (path ?p') \<subseteq> set (graph_nodes G)"
    "current ?p' = last (path ?p')" using m h(2) hg by simp_all
  then show ?case unfolding on_time_def by blast
qed

lemma psteps_on_time:
  assumes "wf_graph G"
  shows "(pstep G ^^ k) p p' \<Longrightarrow> on_time G j p \<Longrightarrow> on_time G (j + k) p'"
proof (induction k arbitrary: p')
  case 0
  then show ?case by simp
next
  case (Suc k)
  from Suc.prems(1) obtain q where q: "(pstep G ^^ k) p q" "pstep G q p'" by auto
  from pstep_on_time [OF q(2) assms Suc.IH [OF q(1) Suc.prems(2)]] show ?case by simp
qed

lemma on_time_arrived:
  assumes "on_time G k p" "length (graph_nodes G) \<le> k" "current p = dst p"
  shows "completed p"
proof (rule ccontr)
  assume "\<not> completed p"
  with assms(1,3) have m: "distinct (path p)" "length (path p) = Suc k"
    "set (path p) \<subseteq> set (graph_nodes G)" unfolding on_time_def by auto
  from m(1) have "length (path p) = card (set (path p))" by (simp add: distinct_card)
  also from m(3) have "\<dots> \<le> card (set (graph_nodes G))" by (intro card_mono) simp_all
  also have "\<dots> \<le> length (graph_nodes G)" by (rule card_length)
  finally show False using m(2) assms(2) by simp
qed

lemma arrived_completed:
  assumes "wf_graph G" "create_packets G draws [] = Inr ps0" "run_steps G k ps0 = Inr ps"
    and "length (graph_nodes G) \<le> k" "p \<in> set ps" "current p = dst p"
  shows "completed p"
proof -
  from assms(5) obtain i where i: "i < length ps" "p = ps ! i" by (auto simp: in_set_conv_nth)
  from run_steps_psteps [OF assms(3)] i(1)
  have i0: "i < length ps0" and s: "(pstep G ^^ k) (ps0 ! i) (ps ! i)" by simp_all
  from i0 have "ps0 ! i \<in> set ps0" by simp
  with create_packets_init [OF assms(2)] obtain s0 d0
    where "ps0 ! i = Packet s0 d0" "s0 \<in> set (graph_nodes G)" by fastforce
  then have "on_time G 0 (ps0 ! i)" by (simp add: on_time_Packet)
  from psteps_on_time [OF assms(1) s this] have "on_time G k (ps ! i)" by simp
  from on_time_arrived [OF this assms(4)] assms(6) i(2) show ?thesis by simp
qed

lemma nodes_le_max_steps:
  assumes "2 \<le> n" "n \<le> 6 \<or> topology = Mesh \<or> topology = Torus"
  shows "length (graph_nodes (generate_topology topology n)) \<le> max_steps n"
proof -
  from assms(1) have n: "0 < n" by simp
  show ?thesis
  proof (cases "topology = Hypercube")
    case False
    then show ?thesis unfolding topology_node_count [OF n] by (simp add: max_steps_def)
  next
    case True
    with assms have "n = 2 \<or> n = 3 \<or> n = 4 \<or> n = 5 \<or> n = 6" by auto
    then have "(2::nat) ^ n \<le> n * n * 2" by auto
    with True show ?thesis unfolding topology_node_count [OF n] by (simp add: max_steps_def)
  qed
qed

lemma app_arrived_completed:
  assumes "2 \<le> n" "n \<le> 6 \<or> topology = Mesh \<or> topology = Torus"
    and "app topology n draws = Inr r" "p \<in> set (final_packets r)" "current p = dst p"
  shows "completed p"
proof -
  let ?G = "generate_topology topology n"
  from assms(1) have wf: "wf_graph ?G" by (intro topology_wf) simp
  from app_run [OF assms(1), of topology draws] obtain ps0 ps frames
    where c: "create_packets ?G draws [] = Inr ps0"
      and r: "run_steps ?G (max_steps n) ps0 = Inr ps"
      and a: "app topology n draws = Inr \<lparr>final_packets = ps, frames_drawn = frames, report = summary ps\<rparr>"
    by blast
  from a assms(3,4) have "p \<in> set ps" by auto
  from arrived_completed [OF wf c r nodes_le_max_steps [OF assms(1,2)] this assms(5)] show ?thesis .
qed

lemma pstep_completion:
  assumes "pstep G p p'" "\<not> completed p"
  shows "(completed p' \<longleftrightarrow> current p = dst p) \<and>
         (completed p' \<longrightarrow> current p' = current p \<and> path p' = path p)"
  using assms by (induction rule: pstep.induct) simp_all

text \<open>
  Claim C9, as the code has it. A packet that is not completed becomes completed in an
  iteration exactly when it already stood on its destination at the start of that
  iteration, and it is not routed then: completion is detected one iteration after the
  arrival. At the end of a run, for every size from 2 to 6 (and for any size of the mesh
  and the torus), every packet that stands on its destination is completed and reported
  as Completed: a packet only moves to nodes that are not on its path, so it arrives
  within fewer hops than the graph has nodes, and the graph has at most
  \<open>n * n * 2\<close> nodes.
\<close>

theorem completion_one_step_late:
  assumes "2 \<le> n" "n \<le> 6 \<or> topology = Mesh \<or> topology = Torus"
  shows "(move_packets G ps = Inr ps' \<and> i < length ps \<and> \<not> completed (ps ! i) \<longrightarrow>
            (completed (ps' ! i) \<longleftrightarrow> current (ps ! i) = dst (ps ! i)) \<and>
            (completed (ps' ! i) \<longrightarrow> current (ps' ! i) = current (ps ! i) \<and> path (ps' ! i) = path (ps ! i))) \<and>
         (\<exists>r. app topology n draws = Inr r \<and>
            (\<forall>p \<in> set (final_packets r). current p = dst p \<longrightarrow> completed p \<and> status p = ''Completed''))"
proof -
  have 1: "move_packets G ps = Inr ps' \<and> i < length ps \<and> \<not> completed (ps ! i) \<longrightarrow>
            (completed (ps' ! i) \<longleftrightarrow> current (ps ! i) = dst (ps ! i)) \<and>
            (completed (ps' ! i) \<longrightarrow> current (ps' ! i) = current (ps ! i) \<and> path (ps' ! i) = path (ps ! i))"
  proof (intro impI, elim conjE)
    assume m: "move_packets G ps = Inr ps'" and i: "i < length ps" and c: "\<not> completed (ps ! i)"
    from move_packets_pstep [OF m] i have "pstep G (ps ! i) (ps' ! i)" by simp
    from pstep_completion [OF this c]
    show "(completed (ps' ! i) \<longleftrightarrow> current (ps ! i) = dst (ps ! i)) \<and>
            (completed (ps' ! i) \<longrightarrow> current (ps' ! i) = current (ps ! i) \<and> path (ps' ! i) = path (ps ! i))" .
  qed
  from app_run [OF assms(1), of topology draws] obtain r where r: "app topology n draws = Inr r" by blast
  have "\<forall>p \<in> set (final_packets r). current p = dst p \<longrightarrow> completed p \<and> status p = ''Completed''"
    using app_arrived_completed [OF assms r] by (auto simp: status_def)
  with r have 2: "\<exists>r. app topology n draws = Inr r \<and>
            (\<forall>p \<in> set (final_packets r). current p = dst p \<longrightarrow> completed p \<and> status p = ''Completed'')"
    by blast
  from 1 2 show ?thesis by (rule conjI)
qed

text \<open>
  Claim C9 as stated fails: for the sizes the sidebar offers (2 to 5) no run ends with a
  packet that stands on its destination and is reported as Blocked.
\<close>

theorem no_blocked_arrival_counterexample:
  "\<not> (\<exists>topology n draws r p.
        2 \<le> n \<and> n \<le> 5 \<and> app topology n draws = Inr r \<and> p \<in> set (final_packets r) \<and>
        current p = dst p \<and> \<not> completed p \<and> status p = ''Blocked'')"
proof
  assume "\<exists>topology n draws r p.
        2 \<le> n \<and> n \<le> 5 \<and> app topology n draws = Inr r \<and> p \<in> set (final_packets r) \<and>
        current p = dst p \<and> \<not> completed p \<and> status p = ''Blocked''"
  then obtain topology n draws r p where h: "2 \<le> n" "n \<le> 5" "app topology n draws = Inr r"
    "p \<in> set (final_packets r)" "current p = dst p" "\<not> completed p" by blast
  from h(2) have "n \<le> 6 \<or> topology = Mesh \<or> topology = Torus" by simp
  from app_arrived_completed [OF h(1) this h(3,4,5)] h(6) show False by simp
qed

text \<open>
  On the 2 x 2 mesh the packet from (0,0) to (1,1) arrives in the second iteration, is
  marked completed in the third, and is reported as Completed.
\<close>

theorem completion_one_step_late_witness:
  "(2::nat) \<le> 2 \<and>
   move_packets (generate_topology Mesh 2)
     [\<lparr>src = [0, 0], dst = [1, 1], current = [1, 0], path = [[0, 0], [1, 0]],
       completed = False, blocked_steps = 0\<rparr>]
     = Inr [\<lparr>src = [0, 0], dst = [1, 1], current = [1, 1], path = [[0, 0], [1, 0], [1, 1]],
             completed = False, blocked_steps = 0\<rparr>] \<and>
   move_packets (generate_topology Mesh 2)
     [\<lparr>src = [0, 0], dst = [1, 1], current = [1, 1], path = [[0, 0], [1, 0], [1, 1]],
       completed = False, blocked_steps = 0\<rparr>]
     = Inr [\<lparr>src = [0, 0], dst = [1, 1], current = [1, 1], path = [[0, 0], [1, 0], [1, 1]],
             completed = True, blocked_steps = 0\<rparr>] \<and>
   (\<exists>r. app Mesh 2 [(0, 2)] = Inr r \<and>
      (\<forall>p \<in> set (final_packets r). current p = dst p \<longrightarrow> completed p \<and> status p = ''Completed'')) \<and>
   map_sum id (\<lambda>r. map (\<lambda>p. (current p, dst p, status p)) (final_packets r)) (app Mesh 2 [(0, 2)])
     = Inr [([1, 1], [1, 1], ''Completed'')]"
proof -
  let ?G = "generate_topology Mesh 2"
  let ?p1 = "\<lparr>src = [0, 0], dst = [1, 1], current = [1, 0 :: nat], path = [[0, 0], [1, 0]],
       completed = False, blocked_steps = 0\<rparr>"
  let ?p2 = "\<lparr>src = [0, 0], dst = [1, 1], current = [1, 1 :: nat], path = [[0, 0], [1, 0], [1, 1]],
       completed = False, blocked_steps = 0\<rparr>"
  let ?p3 = "\<lparr>src = [0, 0], dst = [1, 1], current = [1, 1 :: nat], path = [[0, 0], [1, 0], [1, 1]],
       completed = True, blocked_steps = 0\<rparr>"
  have h1: "(2::nat) \<le> 2" by simp
  have h2: "(2::nat) \<le> 6 \<or> Mesh = Mesh \<or> Mesh = Torus" by simp
  have a: "move_packets ?G [?p1] = Inr [?p2]" by code_simp
  have b: "move_packets ?G [?p2] = Inr [?p3]" by code_simp
  have c: "map_sum id (\<lambda>r. map (\<lambda>p. (current p, dst p, status p)) (final_packets r)) (app Mesh 2 [(0, 2)])
     = Inr [([1, 1], [1, 1], ''Completed'')]" by code_simp
  note t = completion_one_step_late [OF h1 h2, of ?G "[?p1]" "[?p2]" 0 "[(0, 2)]"]
  from t have d: "\<exists>r. app Mesh 2 [(0, 2)] = Inr r \<and>
      (\<forall>p \<in> set (final_packets r). current p = dst p \<longrightarrow> completed p \<and> status p = ''Completed'')"
    by (rule conjunct2)
  from h1 a b d c show ?thesis by (intro conjI)
qed

section \<open>Invariants of a run\<close>

text \<open>
  Claim C5. From any state whose packets stand on nodes of a well-formed graph the loop
  returns after \<open>k\<close> and after \<open>k + m\<close> iterations, and between these two states of the
  same run a packet that was completed keeps its current node, its path and its
  completed flag, and no packet's \<open>blocked_steps\<close> decreases.
\<close>

theorem completed_is_final:
  assumes "wf_graph G" "in_graph G packet_list0"
  shows "\<exists>packet_list1 packet_list2.
           run_steps G k packet_list0 = Inr packet_list1 \<and>
           run_steps G (k + m) packet_list0 = Inr packet_list2 \<and>
           (\<forall>i < length packet_list0.
              (completed (packet_list1 ! i) \<longrightarrow>
                 current (packet_list2 ! i) = current (packet_list1 ! i) \<and>
                 path (packet_list2 ! i) = path (packet_list1 ! i) \<and>
                 completed (packet_list2 ! i)) \<and>
              blocked_steps (packet_list1 ! i) \<le> blocked_steps (packet_list2 ! i))"
proof -
  from run_steps_total [OF assms, of k] obtain ps1 where 1: "run_steps G k packet_list0 = Inr ps1" by blast
  from run_steps_total [OF assms, of "k + m"] obtain ps2 where 2: "run_steps G (k + m) packet_list0 = Inr ps2"
    by blast
  from completed_frozen_between [OF 1 2]
  have "\<forall>i < length packet_list0.
              (completed (ps1 ! i) \<longrightarrow>
                 current (ps2 ! i) = current (ps1 ! i) \<and> path (ps2 ! i) = path (ps1 ! i) \<and>
                 completed (ps2 ! i)) \<and>
              blocked_steps (ps1 ! i) \<le> blocked_steps (ps2 ! i)" by blast
  with 1 2 show ?thesis by blast
qed

text \<open>
  Claim C8. A packet with no neighbour left off its path stays where it is for any number
  \<open>m\<close> of further iterations, still has no neighbour left, and its \<open>blocked_steps\<close>
  grows by exactly \<open>m\<close> when it is routed (not completed and not on its destination,
  which then holds in every later iteration), and not at all otherwise.
\<close>

theorem blocked_packet_never_recovers:
  assumes "wf_graph G" "in_graph G packet_list"
    and "i < length packet_list"
    and "neighbors G (current (packet_list ! i)) = Inr ns"
    and "filter (\<lambda>n. n \<notin> set (path (packet_list ! i))) ns = []"
  shows "\<exists>packet_list'.
           run_steps G m packet_list = Inr packet_list' \<and>
           current (packet_list' ! i) = current (packet_list ! i) \<and>
           filter (\<lambda>n. n \<notin> set (path (packet_list' ! i))) ns = [] \<and>
           blocked_steps (packet_list' ! i) = blocked_steps (packet_list ! i) +
             (if completed (packet_list ! i) \<or> current (packet_list ! i) = dst (packet_list ! i)
              then 0 else m)"
proof -
  from run_steps_total [OF assms(1,2), of m] obtain ps' where r: "run_steps G m packet_list = Inr ps'"
    by blast
  from stuck_forever [OF r assms(3,4,5)] r show ?thesis by blast
qed

text \<open>
  Claim C10. For every topology and \<open>n \<ge> 2\<close>, after any number \<open>k\<close> of iterations
  from the packets the script creates, every packet's current node is the last node of
  its path, and the path is a list of distinct nodes followed by \<open>m\<close> further copies of
  the last of them; copies only occur (\<open>m > 0\<close>) at a node all of whose neighbours are on
  the path, where the packet is blocked.
\<close>

theorem path_shape_invariant:
  assumes "2 \<le> n"
  shows "\<exists>packet_list0 packet_list.
           create_packets (generate_topology topology n) draws [] = Inr packet_list0 \<and>
           run_steps (generate_topology topology n) k packet_list0 = Inr packet_list \<and>
           (\<forall>i < length packet_list.
              current (packet_list ! i) = last (path (packet_list ! i)) \<and>
              (\<exists>ys m. path (packet_list ! i) = ys @ replicate m (last ys) \<and> ys \<noteq> [] \<and> distinct ys \<and>
                 (m = 0 \<or> (\<exists>ns. neighbors (generate_topology topology n) (current (packet_list ! i)) = Inr ns \<and>
                                filter (\<lambda>n. n \<notin> set (path (packet_list ! i))) ns = []))))"
proof -
  let ?G = "generate_topology topology n"
  from assms have wf: "wf_graph ?G" by (intro topology_wf) simp
  from create_packets_total [OF topology_two_nodes [OF assms], of topology draws "[]"]
  obtain ps0 where c: "create_packets ?G draws [] = Inr ps0" by blast
  from run_steps_total [OF wf create_packets_in_graph [OF c], of k]
  obtain ps where r: "run_steps ?G k ps0 = Inr ps" by blast
  from path_shape_steps [OF c r]
  have "\<forall>i < length ps.
              current (ps ! i) = last (path (ps ! i)) \<and>
              (\<exists>ys m. path (ps ! i) = ys @ replicate m (last ys) \<and> ys \<noteq> [] \<and> distinct ys \<and>
                 (m = 0 \<or> (\<exists>ns. neighbors ?G (current (ps ! i)) = Inr ns \<and>
                                filter (\<lambda>n. n \<notin> set (path (ps ! i))) ns = [])))" by blast
  with c r show ?thesis by blast
qed

text \<open>
  On the 2 x 2 mesh the packet from (0,0) to (1,1) is completed after three iterations
  and unchanged four iterations later.
\<close>

theorem completed_is_final_witness:
  "wf_graph (generate_topology Mesh 2) \<and>
   in_graph (generate_topology Mesh 2) [Packet [0, 0] [1, 1]] \<and>
   run_steps (generate_topology Mesh 2) 3 [Packet [0, 0] [1, 1]]
     = Inr [\<lparr>src = [0, 0], dst = [1, 1], current = [1, 1], path = [[0, 0], [1, 0], [1, 1]],
             completed = True, blocked_steps = 0\<rparr>] \<and>
   run_steps (generate_topology Mesh 2) (3 + 4) [Packet [0, 0] [1, 1]]
     = Inr [\<lparr>src = [0, 0], dst = [1, 1], current = [1, 1], path = [[0, 0], [1, 0], [1, 1]],
             completed = True, blocked_steps = 0\<rparr>] \<and>
   (\<exists>packet_list1 packet_list2.
      run_steps (generate_topology Mesh 2) 3 [Packet [0, 0] [1, 1]] = Inr packet_list1 \<and>
      run_steps (generate_topology Mesh 2) (3 + 4) [Packet [0, 0] [1, 1]] = Inr packet_list2 \<and>
      completed (packet_list1 ! 0) \<and>
      current (packet_list2 ! 0) = current (packet_list1 ! 0) \<and>
      path (packet_list2 ! 0) = path (packet_list1 ! 0) \<and>
      completed (packet_list2 ! 0) \<and>
      blocked_steps (packet_list1 ! 0) \<le> blocked_steps (packet_list2 ! 0))"
proof -
  let ?G = "generate_topology Mesh 2"
  let ?ps0 = "[Packet [0, 0] [1 :: nat, 1]]"
  let ?p1 = "\<lparr>src = [0, 0], dst = [1, 1], current = [1, 1 :: nat], path = [[0, 0], [1, 0], [1, 1]],
             completed = True, blocked_steps = 0\<rparr>"
  have h1: "wf_graph ?G" by (rule topology_wf) simp
  have h2: "in_graph ?G ?ps0" by (simp add: in_graph_def mesh2_graph graph_nodes_def Packet_def)
  have a: "run_steps ?G 3 ?ps0 = Inr [?p1]" by code_simp
  have b: "run_steps ?G (3 + 4) ?ps0 = Inr [?p1]" by code_simp
  from completed_is_final [OF h1 h2, of 3 4] obtain ps1 ps2
    where r: "run_steps ?G 3 ?ps0 = Inr ps1" "run_steps ?G (3 + 4) ?ps0 = Inr ps2"
      and p: "\<forall>i < length ?ps0.
              (completed (ps1 ! i) \<longrightarrow>
                 current (ps2 ! i) = current (ps1 ! i) \<and> path (ps2 ! i) = path (ps1 ! i) \<and>
                 completed (ps2 ! i)) \<and>
              blocked_steps (ps1 ! i) \<le> blocked_steps (ps2 ! i)" by blast
  from r(1) a have c: "completed (ps1 ! 0)" by simp
  from p have "(completed (ps1 ! 0) \<longrightarrow>
                 current (ps2 ! 0) = current (ps1 ! 0) \<and> path (ps2 ! 0) = path (ps1 ! 0) \<and>
                 completed (ps2 ! 0)) \<and>
              blocked_steps (ps1 ! 0) \<le> blocked_steps (ps2 ! 0)" by simp
  with c r have e: "\<exists>packet_list1 packet_list2.
      run_steps ?G 3 ?ps0 = Inr packet_list1 \<and>
      run_steps ?G (3 + 4) ?ps0 = Inr packet_list2 \<and>
      completed (packet_list1 ! 0) \<and>
      current (packet_list2 ! 0) = current (packet_list1 ! 0) \<and>
      path (packet_list2 ! 0) = path (packet_list1 ! 0) \<and>
      completed (packet_list2 ! 0) \<and>
      blocked_steps (packet_list1 ! 0) \<le> blocked_steps (packet_list2 ! 0)" by blast
  from h1 h2 a b e show ?thesis by (intro conjI)
qed

text \<open>
  On the 3 x 3 mesh the packet from (0,1) to (0,2) is in the corner (0,0) after five
  iterations; four iterations later it is still there, with four blocked steps.
\<close>

theorem blocked_packet_never_recovers_witness:
  "wf_graph (generate_topology Mesh 3) \<and>
   run_steps (generate_topology Mesh 3) 5 [Packet [0, 1] [0, 2]]
     = Inr [\<lparr>src = [0, 1], dst = [0, 2], current = [0, 0],
             path = [[0, 1], [1, 1], [2, 1], [2, 0], [1, 0], [0, 0]],
             completed = False, blocked_steps = 0\<rparr>] \<and>
   neighbors (generate_topology Mesh 3) [0, 0] = Inr [[1, 0], [0, 1]] \<and>
   run_steps (generate_topology Mesh 3) 4
        [\<lparr>src = [0, 1], dst = [0, 2], current = [0, 0],
          path = [[0, 1], [1, 1], [2, 1], [2, 0], [1, 0], [0, 0]],
          completed = False, blocked_steps = 0\<rparr>]
     = Inr [\<lparr>src = [0, 1], dst = [0, 2], current = [0, 0],
          path = [[0, 1], [1, 1], [2, 1], [2, 0], [1, 0], [0, 0], [0, 0], [0, 0], [0, 0], [0, 0]],
          completed = False, blocked_steps = 4\<rparr>] \<and>
   (\<exists>packet_list'.
      run_steps (generate_topology Mesh 3) 4
        [\<lparr>src = [0, 1], dst = [0, 2], current = [0, 0],
          path = [[0, 1], [1, 1], [2, 1], [2, 0], [1, 0], [0, 0]],
          completed = False, blocked_steps = 0\<rparr>] = Inr packet_list' \<and>
      current (packet_list' ! 0) = [0, 0] \<and>
      filter (\<lambda>n. n \<notin> set (path (packet_list' ! 0))) [[1, 0], [0, 1]] = [] \<and>
      blocked_steps (packet_list' ! 0) = 4)"
proof -
  let ?G = "generate_topology Mesh 3"
  let ?p = "\<lparr>src = [0, 1], dst = [0, 2], current = [0, 0 :: nat],
          path = [[0, 1], [1, 1], [2, 1], [2, 0], [1, 0], [0, 0]],
          completed = False, blocked_steps = 0\<rparr>"
  let ?q = "\<lparr>src = [0, 1], dst = [0, 2], current = [0, 0 :: nat],
          path = [[0, 1], [1, 1], [2, 1], [2, 0], [1, 0], [0, 0], [0, 0], [0, 0], [0, 0], [0, 0]],
          completed = False, blocked_steps = 4\<rparr>"
  have h1: "wf_graph ?G" by (rule topology_wf) simp
  have h2: "in_graph ?G [?p]" by (simp add: in_graph_def mesh3_graph graph_nodes_def)
  have h3: "0 < length [?p]" by simp
  have h4: "neighbors ?G (current ([?p] ! 0)) = Inr [[1, 0], [0, 1]]"
    by (simp add: mesh3_graph neighbors_def)
  have h5: "filter (\<lambda>n. n \<notin> set (path ([?p] ! 0))) [[1, 0], [0, 1]] = []" by simp
  have r0: "run_steps ?G 5 [Packet [0, 1] [0, 2]] = Inr [?p]" by code_simp
  have r1: "run_steps ?G 4 [?p] = Inr [?q]" by code_simp
  from blocked_packet_never_recovers [OF h1 h2 h3 h4 h5, of 4]
  have e: "\<exists>packet_list'. run_steps ?G 4 [?p] = Inr packet_list' \<and>
      current (packet_list' ! 0) = [0, 0] \<and>
      filter (\<lambda>n. n \<notin> set (path (packet_list' ! 0))) [[1, 0], [0, 1]] = [] \<and>
      blocked_steps (packet_list' ! 0) = 4" by simp
  from h4 have n: "neighbors ?G [0, 0] = Inr [[1, 0], [0, 1]]" by simp
  from h1 r0 n r1 e show ?thesis by (intro conjI)
qed

text \<open>
  On the 3 x 3 mesh the packet from (0,1) to (0,2) after seven iterations: six distinct
  nodes and two further copies of the corner (0,0).
\<close>

theorem path_shape_invariant_witness:
  "(2::nat) \<le> 3 \<and>
   create_packets (generate_topology Mesh 3) [(1, 1)] [] = Inr [Packet [0, 1] [0, 2]] \<and>
   run_steps (generate_topology Mesh 3) 7 [Packet [0, 1] [0, 2]]
     = Inr [\<lparr>src = [0, 1], dst = [0, 2], current = [0, 0],
             path = [[0, 1], [1, 1], [2, 1], [2, 0], [1, 0], [0, 0], [0, 0], [0, 0]],
             completed = False, blocked_steps = 2\<rparr>] \<and>
   (\<exists>ys m. [[0, 1], [1, 1], [2, 1], [2, 0], [1, 0], [0, 0], [0, 0], [0, 0 :: nat]]
              = ys @ replicate m (last ys) \<and> ys \<noteq> [] \<and> distinct ys \<and>
      (m = 0 \<or> (\<exists>ns. neighbors (generate_topology Mesh 3) [0, 0] = Inr ns \<and>
         filter (\<lambda>n. n \<notin> set [[0, 1], [1, 1], [2, 1], [2, 0], [1, 0], [0, 0], [0, 0], [0, 0]]) ns = [])))"
proof -
  let ?G = "generate_topology Mesh 3"
  let ?q = "\<lparr>src = [0, 1], dst = [0, 2], current = [0, 0 :: nat],
             path = [[0, 1], [1, 1], [2, 1], [2, 0], [1, 0], [0, 0], [0, 0], [0, 0]],
             completed = False, blocked_steps = 2\<rparr>"
  have h: "(2::nat) \<le> 3" by simp
  have h1: "create_packets ?G [(1, 1)] [] = Inr [Packet [0, 1] [0, 2]]" by code_simp
  have h2: "run_steps ?G 7 [Packet [0, 1] [0, 2]] = Inr [?q]" by code_simp
  from path_shape_invariant [OF h, of Mesh "[(1, 1)]" 7] obtain ps0 ps
    where c: "create_packets ?G [(1, 1)] [] = Inr ps0" and r: "run_steps ?G 7 ps0 = Inr ps"
      and p: "\<forall>i < length ps.
              current (ps ! i) = last (path (ps ! i)) \<and>
              (\<exists>ys m. path (ps ! i) = ys @ replicate m (last ys) \<and> ys \<noteq> [] \<and> distinct ys \<and>
                 (m = 0 \<or> (\<exists>ns. neighbors ?G (current (ps ! i)) = Inr ns \<and>
                                filter (\<lambda>n. n \<notin> set (path (ps ! i))) ns = [])))" by blast
  from c h1 have "ps0 = [Packet [0, 1] [0, 2]]" by simp
  with r h2 have ps: "ps = [?q]" by simp
  from p have "\<exists>ys m. path (ps ! 0) = ys @ replicate m (last ys) \<and> ys \<noteq> [] \<and> distinct ys \<and>
                 (m = 0 \<or> (\<exists>ns. neighbors ?G (current (ps ! 0)) = Inr ns \<and>
                                filter (\<lambda>n. n \<notin> set (path (ps ! 0))) ns = []))"
    unfolding ps by simp
  then have e: "\<exists>ys m. [[0, 1], [1, 1], [2, 1], [2, 0], [1, 0], [0, 0], [0, 0], [0, 0 :: nat]]
              = ys @ replicate m (last ys) \<and> ys \<noteq> [] \<and> distinct ys \<and>
      (m = 0 \<or> (\<exists>ns. neighbors ?G [0, 0] = Inr ns \<and>
         filter (\<lambda>n. n \<notin> set [[0, 1], [1, 1], [2, 1], [2, 0], [1, 0], [0, 0], [0, 0], [0, 0]]) ns = []))"
    unfolding ps by simp
  from h h1 h2 e show ?thesis by (intro conjI)
qed

end
